theory Spec2Isabelle
  imports Main
begin

section \<open>Data model\<close>

text \<open>
  A coordinate is the Python tuple \<open>(z, y, x)\<close> of unbounded integers. The class
  \<open>Maze3D\<close> has the six attributes that \<open>__init__\<close> assigns. The numpy array
  \<open>self.grid\<close> of shape \<open>(depth, height, width)\<close> is a function from coordinates to
  cell values (1 = wall, 0 = path) together with the three dimensions; what the function
  returns outside the dimensions is no part of the array and is never read. The attribute
  \<open>self.end\<close> is called \<open>end_cell\<close>, because \<open>end\<close> is reserved.
\<close>

type_synonym coord = "int \<times> int \<times> int"

datatype error = IndexError | KeyError | ValueError

record Maze3D =
  width :: int
  height :: int
  depth :: int
  grid :: "coord \<Rightarrow> int"
  start :: coord
  end_cell :: coord

fun in_bounds :: "Maze3D \<Rightarrow> coord \<Rightarrow> bool" where
  "in_bounds m (z, y, x) =
     (0 \<le> z \<and> z < depth m \<and> 0 \<le> y \<and> y < height m \<and> 0 \<le> x \<and> x < width m)"

text \<open>
  Indexing the array. An index outside \<open>0 \<le> i < n\<close> is the error branch: numpy raises
  IndexError beyond \<open>n\<close>, and would wrap an index in \<open>[-n, 0)\<close>; the model reports both,
  so a run without an error is a run whose every index lies inside the dimensions.
\<close>

definition grid_get :: "Maze3D \<Rightarrow> coord \<Rightarrow> error + int" where
  "grid_get m c = (if in_bounds m c then Inr (grid m c) else Inl IndexError)"

definition grid_set :: "Maze3D \<Rightarrow> coord \<Rightarrow> int \<Rightarrow> error + Maze3D" where
  "grid_set m c v =
     (if in_bounds m c then Inr (m\<lparr>grid := (grid m)(c := v)\<rparr>) else Inl IndexError)"

text \<open>\<open>Maze3D.__init__\<close>: \<open>np.ones\<close> raises ValueError on a negative dimension.\<close>

definition Maze3D_init :: "int \<Rightarrow> int \<Rightarrow> int \<Rightarrow> error + Maze3D" where
  "Maze3D_init w h d =
     (if d < 0 \<or> h < 0 \<or> w < 0 then Inl ValueError
      else Inr \<lparr>width = w, height = h, depth = d, grid = (\<lambda>_. 1),
                start = (0, 0, 0), end_cell = (d - 1, h - 1, w - 1)\<rparr>)"

text \<open>The six directions, in the order of the source (the same list in both methods).\<close>

definition directions :: "coord list" where
  "directions = [(0, -1, 0), (0, 1, 0), (0, 0, -1), (0, 0, 1), (-1, 0, 0), (1, 0, 0)]"

section \<open>The random source\<close>

text \<open>
  The process-wide generator of the \<open>random\<close> module is an infinite sequence of natural
  numbers, one consumed by each call. \<open>random.choice\<close> picks an index below the length,
  \<open>random.randint a b\<close> a value in \<open>[a, b]\<close>; every possible outcome of the generator is
  the outcome under some sequence.
\<close>

type_synonym rng = "nat \<Rightarrow> nat"

definition rng_tail :: "rng \<Rightarrow> rng" where
  "rng_tail r = (\<lambda>i. r (Suc i))"

definition choice :: "'a list \<Rightarrow> rng \<Rightarrow> error + ('a \<times> rng)" where
  "choice xs r =
     (if xs = [] then Inl IndexError else Inr (xs ! (r 0 mod length xs), rng_tail r))"

definition randint :: "int \<Rightarrow> int \<Rightarrow> rng \<Rightarrow> error + (int \<times> rng)" where
  "randint a b r =
     (if a \<le> b then Inr (a + int (r 0 mod nat (b - a + 1)), rng_tail r)
      else Inl ValueError)"

section \<open>generate\_maze\<close>

record carve_state =
  c_self :: Maze3D
  stack :: "coord list"
  visited_cells :: "coord set"
  c_rng :: rng

text \<open>The inner \<open>for\<close> loop: the unvisited cells at distance 2 inside the dimensions.\<close>

definition neighbors_of ::
  "Maze3D \<Rightarrow> coord set \<Rightarrow> coord \<Rightarrow> (int \<times> int \<times> int \<times> int \<times> int \<times> int) list" where
  "neighbors_of m vis c =
     (case c of (z, y, x) \<Rightarrow>
        filter (\<lambda>(nz, ny, nx, dz, dy, dx). in_bounds m (nz, ny, nx) \<and> (nz, ny, nx) \<notin> vis)
          (map (\<lambda>(dz, dy, dx). (z + dz * 2, y + dy * 2, x + dx * 2, dz, dy, dx)) directions))"

text \<open>One pass through the body of \<open>while stack\<close>.\<close>

definition carve_step :: "carve_state \<Rightarrow> error + carve_state" where
  "carve_step s =
     (if stack s = [] then Inl IndexError
      else case last (stack s) of (z, y, x) \<Rightarrow>
        let neighbors = neighbors_of (c_self s) (visited_cells s) (z, y, x) in
        if neighbors \<noteq> [] then
          (case choice neighbors (c_rng s) of
             Inl e \<Rightarrow> Inl e
           | Inr ((nz, ny, nx, dz, dy, dx), r') \<Rightarrow>
               (case grid_set (c_self s) (z + dz, y + dy, x + dx) 0 of
                  Inl e \<Rightarrow> Inl e
                | Inr m1 \<Rightarrow>
                    (case grid_set m1 (nz, ny, nx) 0 of
                       Inl e \<Rightarrow> Inl e
                     | Inr m2 \<Rightarrow>
                         Inr (s\<lparr>c_self := m2,
                                visited_cells := insert (nz, ny, nx) (visited_cells s),
                                stack := stack s @ [(nz, ny, nx)],
                                c_rng := r'\<rparr>))))
        else Inr (s\<lparr>stack := butlast (stack s)\<rparr>))"

definition box :: "Maze3D \<Rightarrow> coord set" where
  "box m = {0..<depth m} \<times> {0..<height m} \<times> {0..<width m}"

lemma in_bounds_box: "in_bounds m c \<longleftrightarrow> c \<in> box m"
  by (cases c) (auto simp: box_def)

lemma finite_box: "finite (box m)"
  by (simp add: box_def)

lemma grid_set_dims:
  "grid_set m c v = Inr m' \<Longrightarrow>
     width m' = width m \<and> height m' = height m \<and> depth m' = depth m \<and>
     start m' = start m \<and> end_cell m' = end_cell m"
  by (auto simp: grid_set_def split: if_splits)

lemma grid_set_box: "grid_set m c v = Inr m' \<Longrightarrow> box m' = box m"
  by (auto simp: box_def dest: grid_set_dims)

lemma neighbors_of_mem:
  "(nz, ny, nx, dz, dy, dx) \<in> set (neighbors_of m vis (z, y, x)) \<Longrightarrow>
     (dz, dy, dx) \<in> set directions \<and> nz = z + dz * 2 \<and> ny = y + dy * 2 \<and> nx = x + dx * 2 \<and>
     in_bounds m (nz, ny, nx) \<and> (nz, ny, nx) \<notin> vis"
  by (auto simp: neighbors_of_def)

lemma choice_mem: "choice xs r = Inr (a, r') \<Longrightarrow> a \<in> set xs \<and> r' = rng_tail r"
  by (auto simp: choice_def split: if_splits)

text \<open>What one pass does: it pops, or it pushes a cell that was not visited before.\<close>

lemma carve_step_cases:
  assumes "carve_step s = Inr s'"
  shows "(s' = s\<lparr>stack := butlast (stack s)\<rparr> \<and> stack s \<noteq> [] \<and>
            neighbors_of (c_self s) (visited_cells s) (last (stack s)) = []) \<or>
         (\<exists>z y x nz ny nx dz dy dx m1 m2.
            stack s \<noteq> [] \<and> last (stack s) = (z, y, x) \<and>
            (nz, ny, nx, dz, dy, dx) \<in> set (neighbors_of (c_self s) (visited_cells s) (z, y, x)) \<and>
            grid_set (c_self s) (z + dz, y + dy, x + dx) 0 = Inr m1 \<and>
            grid_set m1 (nz, ny, nx) 0 = Inr m2 \<and>
            s' = s\<lparr>c_self := m2, visited_cells := insert (nz, ny, nx) (visited_cells s),
                   stack := stack s @ [(nz, ny, nx)], c_rng := rng_tail (c_rng s)\<rparr>)"
proof (cases "stack s = []")
  case True
  with assms show ?thesis by (simp add: carve_step_def)
next
  case False
  obtain z y x where top: "last (stack s) = (z, y, x)" by (cases "last (stack s)") auto
  show ?thesis
  proof (cases "neighbors_of (c_self s) (visited_cells s) (z, y, x) = []")
    case True
    with assms False top show ?thesis by (simp add: carve_step_def)
  next
    case nonempty: False
    from assms False top nonempty
    obtain a r' where ch: "choice (neighbors_of (c_self s) (visited_cells s) (z, y, x)) (c_rng s) = Inr (a, r')"
      by (auto simp: carve_step_def split: sum.splits)
    obtain nz ny nx dz dy dx where a: "a = (nz, ny, nx, dz, dy, dx)" by (cases a) auto
    from choice_mem [OF ch] a
    have mem: "(nz, ny, nx, dz, dy, dx) \<in> set (neighbors_of (c_self s) (visited_cells s) (z, y, x))"
      and r': "r' = rng_tail (c_rng s)" by auto
    from assms False top nonempty ch a r'
    obtain m1 m2 where g1: "grid_set (c_self s) (z + dz, y + dy, x + dx) 0 = Inr m1"
      and g2: "grid_set m1 (nz, ny, nx) 0 = Inr m2"
      and s': "s' = s\<lparr>c_self := m2, visited_cells := insert (nz, ny, nx) (visited_cells s),
                   stack := stack s @ [(nz, ny, nx)], c_rng := rng_tail (c_rng s)\<rparr>"
      by (auto simp: carve_step_def split: sum.splits)
    from False top mem g1 g2 s' show ?thesis by blast
  qed
qed

lemma carve_step_decreases:
  assumes "carve_step s = Inr s'"
  shows "(s', s) \<in> inv_image (less_than <*lex*> less_than)
           (\<lambda>s. (card (box (c_self s) - visited_cells s), length (stack s)))"
  using carve_step_cases [OF assms]
proof
  assume "s' = s\<lparr>stack := butlast (stack s)\<rparr> \<and> stack s \<noteq> [] \<and>
            neighbors_of (c_self s) (visited_cells s) (last (stack s)) = []"
  then show ?thesis by simp
next
  assume "\<exists>z y x nz ny nx dz dy dx m1 m2.
            stack s \<noteq> [] \<and> last (stack s) = (z, y, x) \<and>
            (nz, ny, nx, dz, dy, dx) \<in> set (neighbors_of (c_self s) (visited_cells s) (z, y, x)) \<and>
            grid_set (c_self s) (z + dz, y + dy, x + dx) 0 = Inr m1 \<and>
            grid_set m1 (nz, ny, nx) 0 = Inr m2 \<and>
            s' = s\<lparr>c_self := m2, visited_cells := insert (nz, ny, nx) (visited_cells s),
                   stack := stack s @ [(nz, ny, nx)], c_rng := rng_tail (c_rng s)\<rparr>"
  then obtain z y x nz ny nx dz dy dx m1 m2 where
    mem: "(nz, ny, nx, dz, dy, dx) \<in> set (neighbors_of (c_self s) (visited_cells s) (z, y, x))"
    and g1: "grid_set (c_self s) (z + dz, y + dy, x + dx) 0 = Inr m1"
    and g2: "grid_set m1 (nz, ny, nx) 0 = Inr m2"
    and s': "s' = s\<lparr>c_self := m2, visited_cells := insert (nz, ny, nx) (visited_cells s),
                   stack := stack s @ [(nz, ny, nx)], c_rng := rng_tail (c_rng s)\<rparr>"
    by blast
  from g1 g2 have bx: "box m2 = box (c_self s)" by (simp add: grid_set_box)
  from neighbors_of_mem [OF mem]
  have "in_bounds (c_self s) (nz, ny, nx)" and nv: "(nz, ny, nx) \<notin> visited_cells s"
    by blast+
  then have "(nz, ny, nx) \<in> box (c_self s)"
    by (simp add: in_bounds_box)
  with nv
  have "card (box (c_self s) - insert (nz, ny, nx) (visited_cells s))
               < card (box (c_self s) - visited_cells s)"
    by (intro psubset_card_mono) (auto simp: finite_box)
  with s' bx show ?thesis by simp
qed

text \<open>The loop \<open>while stack\<close>.\<close>

function carve :: "carve_state \<Rightarrow> error + carve_state" where
  "carve s =
     (if stack s = [] then Inr s
      else case carve_step s of Inl e \<Rightarrow> Inl e | Inr s' \<Rightarrow> carve s')"
  by pat_completeness auto
termination
proof (relation "inv_image (less_than <*lex*> less_than)
           (\<lambda>s. (card (box (c_self s) - visited_cells s), length (stack s)))")
  show "wf (inv_image (less_than <*lex*> less_than)
           (\<lambda>s. (card (box (c_self s) - visited_cells s), length (stack s))))"
    by (intro wf_inv_image wf_lex_prod wf_less_than)
next
  fix s s'
  assume "carve_step s = Inr s'"
  then show "(s', s) \<in> inv_image (less_than <*lex*> less_than)
           (\<lambda>s. (card (box (c_self s) - visited_cells s), length (stack s)))"
    by (rule carve_step_decreases)
qed

declare carve.simps [simp del]


text \<open>
  The method up to the end of the loop: \<open>stack = [self.start]\<close>,
  \<open>self.grid[self.start] = 0\<close>, \<open>visited_cells = {self.start}\<close>, then the loop.
\<close>

definition carve_init :: "Maze3D \<Rightarrow> rng \<Rightarrow> error + carve_state" where
  "carve_init m r =
     (case grid_set m (start m) 0 of
        Inl e \<Rightarrow> Inl e
      | Inr m0 \<Rightarrow>
          Inr \<lparr>c_self = m0, stack = [start m], visited_cells = {start m}, c_rng = r\<rparr>)"

definition carve_phase :: "Maze3D \<Rightarrow> rng \<Rightarrow> error + carve_state" where
  "carve_phase m r = (case carve_init m r of Inl e \<Rightarrow> Inl e | Inr s \<Rightarrow> carve s)"

text \<open>One pass through the body of the last \<open>for\<close> loop: three draws and a write.\<close>

definition random_opening :: "Maze3D \<Rightarrow> rng \<Rightarrow> error + (Maze3D \<times> rng)" where
  "random_opening m r =
     (case randint 0 (depth m - 1) r of
        Inl e \<Rightarrow> Inl e
      | Inr (z, r1) \<Rightarrow>
          (case randint 0 (height m - 1) r1 of
             Inl e \<Rightarrow> Inl e
           | Inr (y, r2) \<Rightarrow>
               (case randint 0 (width m - 1) r2 of
                  Inl e \<Rightarrow> Inl e
                | Inr (x, r3) \<Rightarrow>
                    (case grid_set m (z, y, x) 0 of
                       Inl e \<Rightarrow> Inl e
                     | Inr m' \<Rightarrow> Inr (m', r3)))))"

fun random_openings :: "nat \<Rightarrow> Maze3D \<Rightarrow> rng \<Rightarrow> error + (Maze3D \<times> rng)" where
  "random_openings 0 m r = Inr (m, r)"
| "random_openings (Suc k) m r =
     (case random_opening m r of
        Inl e \<Rightarrow> Inl e
      | Inr (m', r') \<Rightarrow> random_openings k m' r')"

text \<open>
  The rest of the method, from the state the loop leaves: start and end are opened, then
  \<open>range(min(5, (width * height * depth) // 20))\<close> random cells.
\<close>

definition finish_maze :: "Maze3D \<Rightarrow> rng \<Rightarrow> error + (Maze3D \<times> rng)" where
  "finish_maze m r =
     (case grid_set m (start m) 0 of
        Inl e \<Rightarrow> Inl e
      | Inr m1 \<Rightarrow>
          (case grid_set m1 (end_cell m1) 0 of
             Inl e \<Rightarrow> Inl e
           | Inr m2 \<Rightarrow>
               random_openings (nat (min 5 ((width m2 * height m2 * depth m2) div 20))) m2 r))"

definition generate_maze :: "Maze3D \<Rightarrow> rng \<Rightarrow> error + (Maze3D \<times> rng)" where
  "generate_maze m r =
     (case carve_phase m r of
        Inl e \<Rightarrow> Inl e
      | Inr s \<Rightarrow> finish_maze (c_self s) (c_rng s))"

section \<open>solve\_maze\<close>

text \<open>
  The method reads \<open>self\<close> and works on three locals: the deque, the visited set and the
  parent dictionary, whose values are a coordinate or \<open>None\<close>. \<open>self\<close> is carried through
  the loop and returned with the path, as a method of a mutable object would leave it.
\<close>

record bfs_state =
  b_self :: Maze3D
  queue :: "coord list"
  visited :: "coord set"
  parent :: "coord \<rightharpoonup> coord option"

text \<open>The body of the \<open>for\<close> loop for one direction.\<close>

definition try_visit :: "coord \<Rightarrow> coord \<Rightarrow> bfs_state \<Rightarrow> error + bfs_state" where
  "try_visit c d s =
     (case c of (z, y, x) \<Rightarrow> case d of (dz, dy, dx) \<Rightarrow>
        let n = (z + dz, y + dy, x + dx) in
        if in_bounds (b_self s) n then
          (case grid_get (b_self s) n of
             Inl e \<Rightarrow> Inl e
           | Inr v \<Rightarrow>
               if v = 0 \<and> n \<notin> visited s then
                 Inr (s\<lparr>visited := insert n (visited s),
                        parent := (parent s)(n \<mapsto> Some (z, y, x)),
                        queue := queue s @ [n]\<rparr>)
               else Inr s)
        else Inr s)"

fun explore :: "coord \<Rightarrow> coord list \<Rightarrow> bfs_state \<Rightarrow> error + bfs_state" where
  "explore c [] s = Inr s"
| "explore c (d # ds) s =
     (case try_visit c d s of Inl e \<Rightarrow> Inl e | Inr s' \<Rightarrow> explore c ds s')"

text \<open>
  Path reconstruction: \<open>while current is not None\<close>. A missing key raises KeyError, and
  a cycle of parents would keep the loop running; not returning is \<open>None\<close>.
\<close>

partial_function (option) reconstruct ::
  "(coord \<rightharpoonup> coord option) \<Rightarrow> coord option \<Rightarrow> coord list \<Rightarrow> (error + coord list) option" where
  "reconstruct par current path =
     (case current of
        None \<Rightarrow> Some (Inr path)
      | Some c \<Rightarrow>
          (case par c of
             None \<Rightarrow> Some (Inl KeyError)
           | Some nxt \<Rightarrow> reconstruct par nxt (path @ [c])))"

declare reconstruct.simps [code]

lemma reconstruct_None [simp]: "reconstruct par None path = Some (Inr path)"
  by (subst reconstruct.simps) simp

lemma reconstruct_Some [simp]:
  "reconstruct par (Some c) path =
     (case par c of None \<Rightarrow> Some (Inl KeyError)
      | Some nxt \<Rightarrow> reconstruct par nxt (path @ [c]))"
  by (subst reconstruct.simps) simp

lemma try_visit_cases:
  assumes "try_visit c d s = Inr s'"
  shows "s' = s \<or>
         (\<exists>n. n \<notin> visited s \<and> in_bounds (b_self s) n \<and> grid (b_self s) n = 0 \<and>
              n = (fst c + fst d, fst (snd c) + fst (snd d), snd (snd c) + snd (snd d)) \<and>
              s' = s\<lparr>visited := insert n (visited s), parent := (parent s)(n \<mapsto> Some c),
                     queue := queue s @ [n]\<rparr>)"
  using assms
  by (cases c; cases d)
     (auto simp: try_visit_def grid_get_def Let_def split: if_splits sum.splits)

lemma try_visit_progress:
  assumes "try_visit c d s = Inr s'"
  shows "b_self s' = b_self s \<and> visited s \<subseteq> visited s' \<and>
         visited s' - visited s \<subseteq> box (b_self s) \<and>
         (visited s' = visited s \<longrightarrow> queue s' = queue s)"
  using try_visit_cases [OF assms]
proof
  assume "s' = s"
  then show ?thesis by simp
next
  assume "\<exists>n. n \<notin> visited s \<and> in_bounds (b_self s) n \<and> grid (b_self s) n = 0 \<and>
              n = (fst c + fst d, fst (snd c) + fst (snd d), snd (snd c) + snd (snd d)) \<and>
              s' = s\<lparr>visited := insert n (visited s), parent := (parent s)(n \<mapsto> Some c),
                     queue := queue s @ [n]\<rparr>"
  then obtain n where n: "n \<notin> visited s" "n \<in> box (b_self s)"
    and s': "s' = s\<lparr>visited := insert n (visited s), parent := (parent s)(n \<mapsto> Some c),
                     queue := queue s @ [n]\<rparr>"
    by (auto simp: in_bounds_box)
  from n have "insert n (visited s) \<noteq> visited s" by blast
  with n s' show ?thesis by auto
qed

lemma explore_progress:
  "explore c ds s = Inr s' \<Longrightarrow>
     b_self s' = b_self s \<and> visited s \<subseteq> visited s' \<and>
     visited s' - visited s \<subseteq> box (b_self s) \<and>
     (visited s' = visited s \<longrightarrow> queue s' = queue s)"
proof (induction ds arbitrary: s)
  case Nil
  then show ?case by simp
next
  case (Cons d ds)
  from Cons.prems obtain s1 where s1: "try_visit c d s = Inr s1" and rest: "explore c ds s1 = Inr s'"
    by (auto split: sum.splits)
  from try_visit_progress [OF s1]
  have a: "b_self s1 = b_self s" "visited s \<subseteq> visited s1"
    "visited s1 - visited s \<subseteq> box (b_self s)"
    "visited s1 = visited s \<longrightarrow> queue s1 = queue s"
    by blast+
  from Cons.IH [OF rest]
  have b: "b_self s' = b_self s1" "visited s1 \<subseteq> visited s'"
    "visited s' - visited s1 \<subseteq> box (b_self s1)"
    "visited s' = visited s1 \<longrightarrow> queue s' = queue s1"
    by blast+
  have 1: "b_self s' = b_self s" using a(1) b(1) by simp
  have 2: "visited s \<subseteq> visited s'" using a(2) b(2) by blast
  have 3: "visited s' - visited s \<subseteq> box (b_self s)" using a(1,3) b(3) by auto
  have 4: "visited s' = visited s \<longrightarrow> queue s' = queue s"
  proof
    assume eq: "visited s' = visited s"
    with a(2) b(2) have "visited s1 = visited s" by blast
    with eq a(4) b(4) show "queue s' = queue s" by simp
  qed
  from 1 2 3 4 show ?case by blast
qed

lemma visited_grows_measure:
  assumes "V \<subseteq> V'" and "V' - V \<subseteq> box m" and "V' \<noteq> V"
  shows "card (box m - V') < card (box m - V)"
proof -
  from assms obtain n where "n \<in> V'" "n \<notin> V" "n \<in> box m" by blast
  with assms(1) have "box m - V' \<subset> box m - V" by blast
  then show ?thesis by (intro psubset_card_mono) (auto simp: finite_box)
qed

text \<open>The loop \<open>while queue\<close>.\<close>

function bfs :: "bfs_state \<Rightarrow> (error + (coord list \<times> Maze3D)) option" where
  "bfs s =
     (case queue s of
        [] \<Rightarrow> Some (Inr ([], b_self s))
      | c # rest \<Rightarrow>
          if c = end_cell (b_self s) then
            (case reconstruct (parent s) (Some (end_cell (b_self s))) [] of
               None \<Rightarrow> None
             | Some (Inl e) \<Rightarrow> Some (Inl e)
             | Some (Inr path) \<Rightarrow> Some (Inr (rev path, b_self s)))
          else
            (case explore c directions (s\<lparr>queue := rest\<rparr>) of
               Inl e \<Rightarrow> Some (Inl e)
             | Inr s' \<Rightarrow> bfs s'))"
  by pat_completeness auto
termination
proof (relation "inv_image (less_than <*lex*> less_than)
           (\<lambda>s. (card (box (b_self s) - visited s), length (queue s)))")
  show "wf (inv_image (less_than <*lex*> less_than)
           (\<lambda>s. (card (box (b_self s) - visited s), length (queue s))))"
    by (intro wf_inv_image wf_lex_prod wf_less_than)
next
  fix s c rest s'
  assume q: "queue s = c # rest"
    and ex: "explore c directions (s\<lparr>queue := rest\<rparr>) = Inr s'"
  from explore_progress [OF ex]
  have a: "b_self s' = b_self s" "visited s \<subseteq> visited s'"
    "visited s' - visited s \<subseteq> box (b_self s)"
    "visited s' = visited s \<longrightarrow> queue s' = rest"
    by simp_all
  show "(s', s) \<in> inv_image (less_than <*lex*> less_than)
           (\<lambda>s. (card (box (b_self s) - visited s), length (queue s)))"
  proof (cases "visited s' = visited s")
    case True
    with a q show ?thesis by simp
  next
    case False
    from visited_grows_measure [OF a(2) a(3) False] a(1) show ?thesis by simp
  qed
qed

declare bfs.simps [simp del]

definition solve_maze :: "Maze3D \<Rightarrow> (error + (coord list \<times> Maze3D)) option" where
  "solve_maze m =
     bfs \<lparr>b_self = m, queue = [start m], visited = {start m},
          parent = [start m \<mapsto> None]\<rparr>"

section \<open>Paths and the search invariant\<close>

text \<open>
  Two cells are adjacent when they differ by exactly 1 in exactly one axis and agree in the
  other two. A cell is open when it lies inside the dimensions and holds 0. A walk from
  \<open>a\<close> to \<open>b\<close> is a non-empty list of cells from \<open>a\<close> to \<open>b\<close>, each adjacent to the
  one before, in which every cell after the first is open: each step lands on an open
  cell, and nothing is asked of the cell the walk starts from.
\<close>

fun adjacent :: "coord \<Rightarrow> coord \<Rightarrow> bool" where
  "adjacent (z, y, x) (z', y', x') =
     ((\<bar>z - z'\<bar> = 1 \<and> y = y' \<and> x = x') \<or>
      (z = z' \<and> \<bar>y - y'\<bar> = 1 \<and> x = x') \<or>
      (z = z' \<and> y = y' \<and> \<bar>x - x'\<bar> = 1))"

definition is_open :: "Maze3D \<Rightarrow> coord \<Rightarrow> bool" where
  "is_open m c \<longleftrightarrow> in_bounds m c \<and> grid m c = 0"

definition is_walk :: "Maze3D \<Rightarrow> coord \<Rightarrow> coord \<Rightarrow> coord list \<Rightarrow> bool" where
  "is_walk m a b xs \<longleftrightarrow>
     xs \<noteq> [] \<and> hd xs = a \<and> last xs = b \<and> successively adjacent xs \<and>
     list_all (is_open m) (tl xs)"

inductive chain :: "(coord \<rightharpoonup> coord option) \<Rightarrow> coord \<Rightarrow> coord list \<Rightarrow> bool" where
  root: "par c = Some None \<Longrightarrow> chain par c [c]"
| link: "par c = Some (Some p) \<Longrightarrow> chain par p xs \<Longrightarrow> chain par c (xs @ [c])"

lemma chain_reconstruct:
  "chain par c xs \<Longrightarrow> reconstruct par (Some c) acc = Some (Inr (acc @ rev xs))"
  by (induction arbitrary: acc rule: chain.induct) simp_all

lemma chain_update:
  "chain par c xs \<Longrightarrow> par n = None \<Longrightarrow> chain (par(n \<mapsto> v)) c xs"
proof (induction rule: chain.induct)
  case (root par c)
  then have "c \<noteq> n" by auto
  with root show ?case by (simp add: chain.root)
next
  case (link par c p xs)
  then have "c \<noteq> n" by auto
  with link show ?case by (simp add: chain.link)
qed

lemma chain_last: "chain par c xs \<Longrightarrow> xs \<noteq> [] \<and> last xs = c"
  by (induction rule: chain.induct) simp_all

lemma direction_adjacent:
  "d \<in> set directions \<Longrightarrow>
     adjacent c (fst c + fst d, fst (snd c) + fst (snd d), snd (snd c) + snd (snd d))"
  by (cases c) (auto simp: directions_def)

lemma is_walk_snoc:
  assumes "is_walk m a b xs" and "adjacent b n" and "is_open m n"
  shows "is_walk m a n (xs @ [n])"
  using assms
  by (auto simp: is_walk_def successively_append_iff)

definition bfs_wf :: "bfs_state \<Rightarrow> bool" where
  "bfs_wf s \<longleftrightarrow>
     dom (parent s) = visited s \<and>
     (\<forall>c \<in> visited s. \<exists>xs. chain (parent s) c xs \<and> is_walk (b_self s) (start (b_self s)) c xs)"

lemma try_visit_wf:
  assumes wf: "bfs_wf s" and c: "c \<in> visited s" and d: "d \<in> set directions"
    and tv: "try_visit c d s = Inr s'"
  shows "bfs_wf s' \<and> c \<in> visited s'"
  using try_visit_cases [OF tv]
proof
  assume "s' = s"
  with wf c show ?thesis by simp
next
  assume "\<exists>n. n \<notin> visited s \<and> in_bounds (b_self s) n \<and> grid (b_self s) n = 0 \<and>
              n = (fst c + fst d, fst (snd c) + fst (snd d), snd (snd c) + snd (snd d)) \<and>
              s' = s\<lparr>visited := insert n (visited s), parent := (parent s)(n \<mapsto> Some c),
                     queue := queue s @ [n]\<rparr>"
  then obtain n where n: "n \<notin> visited s" "is_open (b_self s) n"
    and nd: "n = (fst c + fst d, fst (snd c) + fst (snd d), snd (snd c) + snd (snd d))"
    and s': "s' = s\<lparr>visited := insert n (visited s), parent := (parent s)(n \<mapsto> Some c),
                     queue := queue s @ [n]\<rparr>"
    by (auto simp: is_open_def)
  from wf have dom: "dom (parent s) = visited s" by (simp add: bfs_wf_def)
  with n have pn: "parent s n = None" by blast
  from d nd have adj: "adjacent c n" by (simp add: direction_adjacent)
  have "\<exists>xs. chain (parent s') v xs \<and> is_walk (b_self s') (start (b_self s')) v xs"
    if v: "v \<in> visited s'" for v
  proof (cases "v = n")
    case False
    with v s' have "v \<in> visited s" by simp
    with wf obtain xs where "chain (parent s) v xs" "is_walk (b_self s) (start (b_self s)) v xs"
      by (auto simp: bfs_wf_def)
    with pn s' show ?thesis by (auto intro: chain_update)
  next
    case True
    from wf c obtain xs where xs: "chain (parent s) c xs" "is_walk (b_self s) (start (b_self s)) c xs"
      by (auto simp: bfs_wf_def)
    from xs(1) pn have "chain ((parent s)(n \<mapsto> Some c)) c xs" by (rule chain_update)
    then have "chain ((parent s)(n \<mapsto> Some c)) n (xs @ [n])"
      by (intro chain.link) simp_all
    moreover from xs(2) adj n(2) have "is_walk (b_self s) (start (b_self s)) n (xs @ [n])"
      by (rule is_walk_snoc)
    ultimately show ?thesis using True s' by auto
  qed
  moreover from dom s' have "dom (parent s') = visited s'" by auto
  ultimately show ?thesis using c s' by (simp add: bfs_wf_def)
qed

lemma explore_wf:
  "bfs_wf s \<Longrightarrow> c \<in> visited s \<Longrightarrow> set ds \<subseteq> set directions \<Longrightarrow>
     explore c ds s = Inr s' \<Longrightarrow> bfs_wf s'"
proof (induction ds arbitrary: s)
  case Nil
  then show ?case by simp
next
  case (Cons d ds)
  from Cons.prems(4) obtain s1 where s1: "try_visit c d s = Inr s1" and rest: "explore c ds s1 = Inr s'"
    by (auto split: sum.splits)
  from Cons.prems(3) have d: "d \<in> set directions" and ds: "set ds \<subseteq> set directions" by auto
  from try_visit_wf [OF Cons.prems(1,2) d s1] have "bfs_wf s1" "c \<in> visited s1" by blast+
  then show ?case using ds rest by (rule Cons.IH)
qed

lemma try_visit_total: "\<exists>s'. try_visit c d s = Inr s'"
  by (cases c; cases d) (simp add: try_visit_def grid_get_def Let_def)

lemma explore_total: "\<exists>s'. explore c ds s = Inr s'"
proof (induction ds arbitrary: s)
  case Nil
  show ?case by simp
next
  case (Cons d ds)
  obtain s1 where "try_visit c d s = Inr s1" using try_visit_total by blast
  with Cons.IH [of s1] show ?case by simp
qed

definition queue_ok :: "bfs_state \<Rightarrow> bool" where
  "queue_ok s \<longleftrightarrow> bfs_wf s \<and> set (queue s) \<subseteq> visited s"

lemma explore_queue:
  "explore c ds s = Inr s' \<Longrightarrow> set (queue s) \<subseteq> visited s \<Longrightarrow> set (queue s') \<subseteq> visited s'"
proof (induction ds arbitrary: s)
  case Nil
  then show ?case by simp
next
  case (Cons d ds)
  from Cons.prems(1) obtain s1 where s1: "try_visit c d s = Inr s1" and rest: "explore c ds s1 = Inr s'"
    by (auto split: sum.splits)
  from try_visit_cases [OF s1] Cons.prems(2) have "set (queue s1) \<subseteq> visited s1" by auto
  with rest show ?case by (rule Cons.IH)
qed

text \<open>The search returns, and what it returns is empty or a walk from start to end.\<close>

lemma bfs_returns:
  "queue_ok s \<Longrightarrow>
     \<exists>p. bfs s = Some (Inr (p, b_self s)) \<and>
         (p = [] \<or> is_walk (b_self s) (start (b_self s)) (end_cell (b_self s)) p)"
proof (induction s rule: bfs.induct)
  case (1 s)
  show ?case
  proof (cases "queue s")
    case Nil
    then show ?thesis by (simp add: bfs.simps [of s])
  next
    case (Cons c rest)
    from "1.prems" Cons have wf: "bfs_wf s" and c: "c \<in> visited s" and rest: "set rest \<subseteq> visited s"
      by (auto simp: queue_ok_def)
    show ?thesis
    proof (cases "c = end_cell (b_self s)")
      case True
      from wf c obtain xs where xs: "chain (parent s) c xs" "is_walk (b_self s) (start (b_self s)) c xs"
        by (auto simp: bfs_wf_def)
      from chain_reconstruct [OF xs(1), of "[]"] True Cons xs(2) show ?thesis
        by (simp add: bfs.simps [of s])
    next
      case False
      obtain s' where s': "explore c directions (s\<lparr>queue := rest\<rparr>) = Inr s'"
        using explore_total by blast
      have wf0: "bfs_wf (s\<lparr>queue := rest\<rparr>)" using wf by (simp add: bfs_wf_def)
      have "bfs_wf s'"
        by (rule explore_wf [OF wf0 _ _ s']) (use c in simp_all)
      moreover have "set (queue s') \<subseteq> visited s'"
        by (rule explore_queue [OF s']) (use rest in simp)
      ultimately have ok: "queue_ok s'" by (simp add: queue_ok_def)
      from explore_progress [OF s'] have self: "b_self s' = b_self s" by simp
      from "1.IH" [OF Cons False s' ok] self False Cons s' show ?thesis
        by (simp add: bfs.simps [of s])
    qed
  qed
qed

lemma solve_maze_returns:
  "\<exists>p. solve_maze m = Some (Inr (p, m)) \<and> (p = [] \<or> is_walk m (start m) (end_cell m) p)"
proof -
  let ?s = "\<lparr>b_self = m, queue = [start m], visited = {start m}, parent = [start m \<mapsto> None]\<rparr>"
  have "chain [start m \<mapsto> None] (start m) [start m]" by (rule chain.root) simp
  moreover have "is_walk m (start m) (start m) [start m]" by (simp add: is_walk_def)
  ultimately have "queue_ok ?s" by (auto simp: queue_ok_def bfs_wf_def)
  from bfs_returns [OF this] show ?thesis by (simp add: solve_maze_def)
qed

section \<open>Reachability\<close>

text \<open>
  \<open>reachable\<close>: some walk leads from \<open>a\<close> to \<open>b\<close>. \<open>open_connected\<close>: some walk does
  all of whose cells are open, the first one too, which is a path of the graph whose
  vertices are the open cells.
\<close>

definition reachable :: "Maze3D \<Rightarrow> coord \<Rightarrow> coord \<Rightarrow> bool" where
  "reachable m a b \<longleftrightarrow> (\<exists>xs. is_walk m a b xs)"

definition open_connected :: "Maze3D \<Rightarrow> coord \<Rightarrow> coord \<Rightarrow> bool" where
  "open_connected m a b \<longleftrightarrow> (\<exists>xs. is_walk m a b xs \<and> list_all (is_open m) xs)"

lemma open_connected_reachable: "open_connected m a b \<Longrightarrow> reachable m a b"
  by (auto simp: open_connected_def reachable_def)

lemma reachable_open_connected:
  assumes "is_open m a" and "reachable m a b"
  shows "open_connected m a b"
proof -
  from assms(2) obtain xs where xs: "is_walk m a b xs" by (auto simp: reachable_def)
  then obtain ys where "xs = a # ys" by (cases xs) (auto simp: is_walk_def)
  with xs assms(1) have "list_all (is_open m) xs" by (simp add: is_walk_def)
  with xs show ?thesis by (auto simp: open_connected_def)
qed

section \<open>Example fields\<close>

definition corridor :: Maze3D where
  "corridor = \<lparr>width = 3, height = 1, depth = 1, grid = (\<lambda>_. 0),
               start = (0, 0, 0), end_cell = (0, 0, 2)\<rparr>"

definition blocked_corridor :: Maze3D where
  "blocked_corridor = \<lparr>width = 3, height = 1, depth = 1,
     grid = (\<lambda>c. if c = (0, 0, 1) then 1 else 0), start = (0, 0, 0), end_cell = (0, 0, 2)\<rparr>"

definition blocked_start :: Maze3D where
  "blocked_start = \<lparr>width = 2, height = 1, depth = 1,
     grid = (\<lambda>c. if c = (0, 0, 0) then 1 else 0), start = (0, 0, 0), end_cell = (0, 0, 1)\<rparr>"

definition fresh_cell :: Maze3D where
  "fresh_cell = \<lparr>width = 1, height = 1, depth = 1, grid = (\<lambda>_. 1),
     start = (0, 0, 0), end_cell = (0, 0, 0)\<rparr>"

lemmas solve_eval = solve_maze_def bfs.simps directions_def try_visit_def grid_get_def Let_def

lemma solve_corridor:
  "solve_maze corridor = Some (Inr ([(0, 0, 0), (0, 0, 1), (0, 0, 2)], corridor))"
  by (simp add: corridor_def solve_eval)

lemma solve_blocked_corridor: "solve_maze blocked_corridor = Some (Inr ([], blocked_corridor))"
  by (simp add: blocked_corridor_def solve_eval)

lemma solve_blocked_start:
  "solve_maze blocked_start = Some (Inr ([(0, 0, 0), (0, 0, 1)], blocked_start))"
  by (simp add: blocked_start_def solve_eval)

lemma solve_fresh_cell: "solve_maze fresh_cell = Some (Inr ([(0, 0, 0)], fresh_cell))"
  by (simp add: fresh_cell_def solve_eval)

lemma fresh_cell_init: "Maze3D_init 1 1 1 = Inr fresh_cell"
  by (simp add: Maze3D_init_def fresh_cell_def)

section \<open>The search leaves the field as it was\<close>

text \<open>
  Claim C9. For every field, \<open>solve_maze\<close> returns normally, and the object it leaves
  is the object it was given: grid, dimensions, start and end are unchanged. The class
  has no attribute for the deque, the visited set or the parent dictionary, so nothing of
  one search is there for the next.
\<close>

theorem solve_maze_frame: "\<exists>p. solve_maze m = Some (Inr (p, m))"
  using solve_maze_returns [of m] by blast

section \<open>The returned path is valid\<close>

text \<open>
  Claim C2, amended. For every field, if \<open>solve_maze\<close> returns a non-empty path \<open>p\<close>,
  then \<open>p\<close> begins with start and ends with end, every two consecutive coordinates are
  adjacent, every coordinate after the first indexes an open cell, and so does the first
  whenever the start cell is open. The method never reads the start cell.
\<close>

theorem solve_maze_path_valid:
  assumes "solve_maze m = Some (Inr (p, m'))" and "p \<noteq> []"
  shows "hd p = start m \<and> last p = end_cell m \<and> successively adjacent p \<and>
         list_all (is_open m) (tl p) \<and> (is_open m (start m) \<longrightarrow> list_all (is_open m) p)"
proof -
  from solve_maze_returns [of m] assms have w: "is_walk m (start m) (end_cell m) p"
    by auto
  then obtain ys where "p = start m # ys" by (cases p) (auto simp: is_walk_def)
  with w show ?thesis by (auto simp: is_walk_def)
qed

theorem solve_maze_path_valid_witness:
  "solve_maze corridor = Some (Inr ([(0, 0, 0), (0, 0, 1), (0, 0, 2)], corridor)) \<and>
   [(0, 0, 0), (0, 0, 1), (0, 0, 2)] \<noteq> ([] :: coord list) \<and>
   is_open corridor (start corridor) \<and>
   list_all (is_open corridor) [(0, 0, 0), (0, 0, 1), (0, 0, 2)]"
proof -
  have ret: "solve_maze corridor = Some (Inr ([(0, 0, 0), (0, 0, 1), (0, 0, 2)], corridor))"
    by (rule solve_corridor)
  have op: "is_open corridor (start corridor)"
    by (simp add: is_open_def corridor_def)
  from solve_maze_path_valid [OF ret] op
  have "list_all (is_open corridor) [(0, 0, 0), (0, 0, 1), (0, 0, 2)]" by blast
  with ret op show ?thesis by blast
qed

text \<open>
  Claim C2 as stated fails on a field of two cells whose start holds a wall: the returned
  path begins with that wall.
\<close>

theorem solve_maze_path_blocked_start:
  "solve_maze blocked_start = Some (Inr ([(0, 0, 0), (0, 0, 1)], blocked_start)) \<and>
   [(0, 0, 0), (0, 0, 1)] \<noteq> ([] :: coord list) \<and>
   \<not> list_all (is_open blocked_start) [(0, 0, 0), (0, 0, 1)]"
  by (simp add: solve_blocked_start) (simp add: is_open_def blocked_start_def)

section \<open>No path\<close>

text \<open>
  Claim C5, amended. For every field in which end cannot be reached from start by unit
  axial steps that each land on an open cell, \<open>solve_maze\<close> returns the empty list, as a
  normal return value; where the start cell is open, that is every field in which end is
  not connected to start in the graph of open cells.
\<close>

theorem solve_maze_no_path:
  "(\<not> reachable m (start m) (end_cell m) \<longrightarrow> solve_maze m = Some (Inr ([], m))) \<and>
   (is_open m (start m) \<and> \<not> open_connected m (start m) (end_cell m) \<longrightarrow>
      solve_maze m = Some (Inr ([], m)))"
proof -
  have a: "solve_maze m = Some (Inr ([], m))" if "\<not> reachable m (start m) (end_cell m)"
    using solve_maze_returns [of m] that by (auto simp: reachable_def)
  have "solve_maze m = Some (Inr ([], m))"
    if "is_open m (start m)" and "\<not> open_connected m (start m) (end_cell m)"
    using a that reachable_open_connected by blast
  with a show ?thesis by blast
qed

lemma blocked_corridor_unreachable:
  "\<not> reachable blocked_corridor (start blocked_corridor) (end_cell blocked_corridor)"
proof
  assume "reachable blocked_corridor (start blocked_corridor) (end_cell blocked_corridor)"
  then obtain xs where xs: "is_walk blocked_corridor (0, 0, 0) (0, 0, 2) xs"
    by (auto simp: reachable_def blocked_corridor_def)
  then obtain ys where ys: "xs = (0, 0, 0) # ys" by (cases xs) (auto simp: is_walk_def)
  show False
  proof (cases ys)
    case Nil
    with xs ys show False by (simp add: is_walk_def)
  next
    case (Cons c zs)
    with xs ys have "adjacent (0, 0, 0) c" and "is_open blocked_corridor c"
      by (simp_all add: is_walk_def)
    then show False
      by (cases c) (auto simp: is_open_def blocked_corridor_def split: if_splits)
  qed
qed

theorem solve_maze_no_path_witness:
  "\<not> reachable blocked_corridor (start blocked_corridor) (end_cell blocked_corridor) \<and>
   is_open blocked_corridor (start blocked_corridor) \<and>
   \<not> open_connected blocked_corridor (start blocked_corridor) (end_cell blocked_corridor) \<and>
   solve_maze blocked_corridor = Some (Inr ([], blocked_corridor))"
proof -
  have u: "\<not> reachable blocked_corridor (start blocked_corridor) (end_cell blocked_corridor)"
    by (rule blocked_corridor_unreachable)
  then have n: "\<not> open_connected blocked_corridor (start blocked_corridor) (end_cell blocked_corridor)"
    using open_connected_reachable by blast
  have op: "is_open blocked_corridor (start blocked_corridor)"
    by (simp add: is_open_def blocked_corridor_def)
  from solve_maze_no_path [of blocked_corridor] u n op show ?thesis by blast
qed

text \<open>
  Claim C5 as stated fails on the one-cell field fresh from the constructor: no cell is
  open, so the graph of open cells connects nothing, and the method returns a path.
\<close>

theorem solve_maze_path_through_blocked:
  "Maze3D_init 1 1 1 = Inr fresh_cell \<and>
   \<not> open_connected fresh_cell (start fresh_cell) (end_cell fresh_cell) \<and>
   solve_maze fresh_cell = Some (Inr ([(0, 0, 0)], fresh_cell)) \<and>
   [(0, 0, 0)] \<noteq> ([] :: coord list)"
proof -
  have "\<not> open_connected fresh_cell (start fresh_cell) (end_cell fresh_cell)"
  proof
    assume "open_connected fresh_cell (start fresh_cell) (end_cell fresh_cell)"
    then obtain xs where xs: "is_walk fresh_cell (0, 0, 0) (0, 0, 0) xs"
      and op: "list_all (is_open fresh_cell) xs"
      by (auto simp: open_connected_def fresh_cell_def)
    then obtain ys where "xs = (0, 0, 0) # ys" by (cases xs) (auto simp: is_walk_def)
    with op have "is_open fresh_cell (0, 0, 0)" by simp
    then show False by (simp add: is_open_def fresh_cell_def)
  qed
  with solve_fresh_cell fresh_cell_init show ?thesis by simp
qed

section \<open>Distances and the level invariant\<close>

text \<open>
  \<open>dist m c\<close> is the least number of steps of a walk from start to \<open>c\<close>. The search
  keeps the queue sorted by distance, within one level of its head; every visited cell
  hangs on a chain of parents that is a walk of least length; every cell that has left
  the queue has all its open neighbours visited, but for the edges \<open>A\<close> that the running
  \<open>for\<close> loop has still to look at.
\<close>

definition shift :: "coord \<Rightarrow> coord \<Rightarrow> coord" where
  "shift c d = (fst c + fst d, fst (snd c) + fst (snd d), snd (snd c) + snd (snd d))"

lemma adjacent_shift: "adjacent c n \<longleftrightarrow> (\<exists>d \<in> set directions. n = shift c d)"
  by (cases c; cases n) (auto simp: directions_def shift_def)

definition dist :: "Maze3D \<Rightarrow> coord \<Rightarrow> nat" where
  "dist m c = (LEAST k. \<exists>xs. is_walk m (start m) c xs \<and> length xs = Suc k)"

lemma dist_le:
  assumes "is_walk m (start m) c xs"
  shows "Suc (dist m c) \<le> length xs"
proof -
  from assms have "xs \<noteq> []" by (simp add: is_walk_def)
  then have len: "length xs = Suc (length xs - 1)" by (cases xs) simp_all
  with assms have "\<exists>ys. is_walk m (start m) c ys \<and> length ys = Suc (length xs - 1)" by blast
  then have "dist m c \<le> length xs - 1" unfolding dist_def by (rule Least_le)
  with len show ?thesis by simp
qed

lemma dist_walk:
  assumes "is_walk m (start m) c xs"
  shows "\<exists>ys. is_walk m (start m) c ys \<and> length ys = Suc (dist m c)"
proof -
  from assms have "xs \<noteq> []" by (simp add: is_walk_def)
  then have len: "length xs = Suc (length xs - 1)" by (cases xs) simp_all
  with assms have "\<exists>ys. is_walk m (start m) c ys \<and> length ys = Suc (length xs - 1)" by blast
  then show ?thesis unfolding dist_def by (rule LeastI)
qed

lemma is_walk_snoc_iff:
  "ys \<noteq> [] \<Longrightarrow>
     is_walk m a x (ys @ [x']) \<longleftrightarrow>
       x' = x \<and> is_walk m a (last ys) ys \<and> adjacent (last ys) x \<and> is_open m x"
  by (auto simp: is_walk_def successively_append_iff)

definition pend :: "coord \<Rightarrow> coord list \<Rightarrow> (coord \<times> coord) set" where
  "pend c ds = (\<lambda>d. (c, shift c d)) ` set ds"

definition lvl_inv :: "bfs_state \<Rightarrow> nat \<Rightarrow> (coord \<times> coord) set \<Rightarrow> bool" where
  "lvl_inv s lo A \<longleftrightarrow>
     start (b_self s) \<in> visited s \<and>
     set (queue s) \<subseteq> visited s \<and>
     dom (parent s) = visited s \<and>
     (\<forall>c \<in> visited s. \<exists>xs. chain (parent s) c xs \<and>
         is_walk (b_self s) (start (b_self s)) c xs \<and> length xs = Suc (dist (b_self s) c)) \<and>
     sorted (map (dist (b_self s)) (queue s)) \<and>
     (\<forall>c \<in> set (queue s). lo \<le> dist (b_self s) c \<and> dist (b_self s) c \<le> Suc lo) \<and>
     (\<forall>c \<in> visited s. c \<notin> set (queue s) \<longrightarrow> dist (b_self s) c \<le> lo) \<and>
     (\<forall>c \<in> visited s. c \<notin> set (queue s) \<longrightarrow>
        (\<forall>n. adjacent c n \<and> is_open (b_self s) n \<longrightarrow> n \<in> visited s \<or> (c, n) \<in> A)) \<and>
     (\<forall>e \<in> A. dist (b_self s) (fst e) = lo)"

text \<open>A cell that is not visited yet is more than \<open>lo\<close> steps away.\<close>

lemma unvisited_far:
  assumes inv: "lvl_inv s lo A"
  shows "is_walk (b_self s) (start (b_self s)) x xs \<Longrightarrow> x \<in> visited s \<or> lo + 2 \<le> length xs"
proof (induction xs arbitrary: x rule: rev_induct)
  case Nil
  then show ?case by (simp add: is_walk_def)
next
  case (snoc x' ys)
  show ?case
  proof (cases "ys = []")
    case True
    with snoc.prems have "x = start (b_self s)" by (auto simp: is_walk_def)
    with inv show ?thesis by (simp add: lvl_inv_def)
  next
    case False
    with snoc.prems have w: "is_walk (b_self s) (start (b_self s)) (last ys) ys"
      and adj: "adjacent (last ys) x" and op: "is_open (b_self s) x"
      by (simp_all add: is_walk_snoc_iff)
    from snoc.IH [OF w] consider "lo + 2 \<le> length ys" | "last ys \<in> visited s" by blast
    then show ?thesis
    proof cases
      case 1
      then show ?thesis by simp
    next
      case 2
      from dist_le [OF w] have dl: "Suc (dist (b_self s) (last ys)) \<le> length ys" .
      show ?thesis
      proof (cases "last ys \<in> set (queue s)")
        case True
        with inv have "lo \<le> dist (b_self s) (last ys)" by (simp add: lvl_inv_def)
        with dl show ?thesis by simp
      next
        case False
        with inv 2 adj op consider "x \<in> visited s" | "(last ys, x) \<in> A"
          unfolding lvl_inv_def by blast
        then show ?thesis
        proof cases
          case 1
          then show ?thesis by simp
        next
          case 2
          with inv have "dist (b_self s) (last ys) = lo" unfolding lvl_inv_def by force
          with dl show ?thesis by simp
        qed
      qed
    qed
  qed
qed

lemma try_visit_cases2:
  assumes "try_visit c d s = Inr s'"
  shows "(s' = s \<and> (is_open (b_self s) (shift c d) \<longrightarrow> shift c d \<in> visited s)) \<or>
         (shift c d \<notin> visited s \<and> is_open (b_self s) (shift c d) \<and>
          s' = s\<lparr>visited := insert (shift c d) (visited s),
                 parent := (parent s)(shift c d \<mapsto> Some c),
                 queue := queue s @ [shift c d]\<rparr>)"
  using assms
  by (cases c; cases d)
     (auto simp: try_visit_def grid_get_def Let_def shift_def is_open_def split: if_splits)

lemma lvl_invI:
  assumes "start (b_self s) \<in> visited s"
    and "set (queue s) \<subseteq> visited s"
    and "dom (parent s) = visited s"
    and "\<And>c. c \<in> visited s \<Longrightarrow> \<exists>xs. chain (parent s) c xs \<and>
         is_walk (b_self s) (start (b_self s)) c xs \<and> length xs = Suc (dist (b_self s) c)"
    and "sorted (map (dist (b_self s)) (queue s))"
    and "\<And>c. c \<in> set (queue s) \<Longrightarrow> lo \<le> dist (b_self s) c \<and> dist (b_self s) c \<le> Suc lo"
    and "\<And>c. c \<in> visited s \<Longrightarrow> c \<notin> set (queue s) \<Longrightarrow> dist (b_self s) c \<le> lo"
    and "\<And>c n. c \<in> visited s \<Longrightarrow> c \<notin> set (queue s) \<Longrightarrow> adjacent c n \<Longrightarrow>
           is_open (b_self s) n \<Longrightarrow> n \<in> visited s \<or> (c, n) \<in> A"
    and "\<And>e. e \<in> A \<Longrightarrow> dist (b_self s) (fst e) = lo"
  shows "lvl_inv s lo A"
  unfolding lvl_inv_def using assms by blast

lemma lvl_invD:
  assumes "lvl_inv s lo A"
  shows "start (b_self s) \<in> visited s"
    and "set (queue s) \<subseteq> visited s"
    and "dom (parent s) = visited s"
    and "\<And>c. c \<in> visited s \<Longrightarrow> \<exists>xs. chain (parent s) c xs \<and>
         is_walk (b_self s) (start (b_self s)) c xs \<and> length xs = Suc (dist (b_self s) c)"
    and "sorted (map (dist (b_self s)) (queue s))"
    and "\<And>c. c \<in> set (queue s) \<Longrightarrow> lo \<le> dist (b_self s) c \<and> dist (b_self s) c \<le> Suc lo"
    and "\<And>c. c \<in> visited s \<Longrightarrow> c \<notin> set (queue s) \<Longrightarrow> dist (b_self s) c \<le> lo"
    and "\<And>c n. c \<in> visited s \<Longrightarrow> c \<notin> set (queue s) \<Longrightarrow> adjacent c n \<Longrightarrow>
           is_open (b_self s) n \<Longrightarrow> n \<in> visited s \<or> (c, n) \<in> A"
    and "\<And>e. e \<in> A \<Longrightarrow> dist (b_self s) (fst e) = lo"
  using assms unfolding lvl_inv_def by blast+

lemma try_visit_lvl:
  assumes inv: "lvl_inv s lo (pend c (d # ds))" and c: "c \<in> visited s"
    and d: "d \<in> set directions" and tv: "try_visit c d s = Inr s'"
  shows "lvl_inv s' lo (pend c ds) \<and> c \<in> visited s'"
proof -
  note I = lvl_invD [OF inv]
  let ?m = "b_self s"
  let ?n = "shift c d"
  have pend: "pend c (d # ds) = insert (c, ?n) (pend c ds)" by (simp add: pend_def)
  from try_visit_cases2 [OF tv] show ?thesis
  proof
    assume same: "s' = s \<and> (is_open ?m ?n \<longrightarrow> ?n \<in> visited s)"
    have "lvl_inv s lo (pend c ds)"
    proof (rule lvl_invI)
      fix c' n assume "c' \<in> visited s" "c' \<notin> set (queue s)" "adjacent c' n" "is_open ?m n"
      with I(8) [of c' n] pend same show "n \<in> visited s \<or> (c', n) \<in> pend c ds" by auto
    next
      fix e assume "e \<in> pend c ds"
      with pend I(9) [of e] show "dist ?m (fst e) = lo" by simp
    qed (use I in blast)+
    with same c show ?thesis by simp
  next
    assume new: "?n \<notin> visited s \<and> is_open ?m ?n \<and>
          s' = s\<lparr>visited := insert ?n (visited s),
                 parent := (parent s)(?n \<mapsto> Some c),
                 queue := queue s @ [?n]\<rparr>"
    then have nv: "?n \<notin> visited s" and op: "is_open ?m ?n"
      and s': "s' = s\<lparr>visited := insert ?n (visited s),
                 parent := (parent s)(?n \<mapsto> Some c),
                 queue := queue s @ [?n]\<rparr>" by blast+
    from d have adj: "adjacent c ?n" by (auto simp: adjacent_shift)
    from I(3) nv have pn: "parent s ?n = None" by blast
    from I(9) [of "(c, ?n)"] pend have dc: "dist ?m c = lo" by simp
    from I(4) [OF c] dc obtain xs where xs: "chain (parent s) c xs"
      "is_walk ?m (start ?m) c xs" "length xs = Suc lo" by auto
    from xs(2) adj op have wn: "is_walk ?m (start ?m) ?n (xs @ [?n])" by (rule is_walk_snoc)
    from dist_le [OF wn] xs(3) have up: "dist ?m ?n \<le> Suc lo" by simp
    from dist_walk [OF wn] obtain ys where ys: "is_walk ?m (start ?m) ?n ys"
      "length ys = Suc (dist ?m ?n)" by blast
    from unvisited_far [OF inv ys(1)] nv ys(2) have "Suc lo \<le> dist ?m ?n" by simp
    with up have dn: "dist ?m ?n = Suc lo" by simp
    have m': "b_self s' = ?m" using s' by simp
    have "lvl_inv s' lo (pend c ds)"
    proof (rule lvl_invI)
      show "start (b_self s') \<in> visited s'" using I(1) s' by simp
      show "set (queue s') \<subseteq> visited s'" using I(2) s' by auto
      show "dom (parent s') = visited s'" using I(3) s' by auto
      show "sorted (map (dist (b_self s')) (queue s'))"
        using I(5) I(6) dn s' by (auto simp: sorted_append)
    next
      fix v assume v: "v \<in> visited s'"
      show "\<exists>xs. chain (parent s') v xs \<and>
         is_walk (b_self s') (start (b_self s')) v xs \<and> length xs = Suc (dist (b_self s') v)"
      proof (cases "v = ?n")
        case True
        from xs(1) pn have "chain ((parent s)(?n \<mapsto> Some c)) c xs" by (rule chain_update)
        then have "chain ((parent s)(?n \<mapsto> Some c)) ?n (xs @ [?n])"
          by (intro chain.link) simp_all
        with wn xs(3) dn True s' show ?thesis by auto
      next
        case False
        with v s' have "v \<in> visited s" by simp
        from I(4) [OF this] obtain zs where "chain (parent s) v zs"
          "is_walk ?m (start ?m) v zs" "length zs = Suc (dist ?m v)" by blast
        with pn s' show ?thesis by (auto intro: chain_update)
      qed
    next
      fix v assume "v \<in> set (queue s')"
      with s' I(6) [of v] dn
      show "lo \<le> dist (b_self s') v \<and> dist (b_self s') v \<le> Suc lo" by auto
    next
      fix v assume "v \<in> visited s'" "v \<notin> set (queue s')"
      with s' I(7) [of v] show "dist (b_self s') v \<le> lo" by auto
    next
      fix v n assume a: "v \<in> visited s'" "v \<notin> set (queue s')" "adjacent v n" "is_open (b_self s') n"
      with s' have "v \<in> visited s" "v \<notin> set (queue s)" "is_open ?m n" by auto
      from I(8) [OF this(1,2) a(3) this(3)] pend s'
      show "n \<in> visited s' \<or> (v, n) \<in> pend c ds" by auto
    next
      fix e assume "e \<in> pend c ds"
      with pend I(9) [of e] m' show "dist (b_self s') (fst e) = lo" by simp
    qed
    with c s' show ?thesis by simp
  qed
qed

lemma explore_lvl:
  "lvl_inv s lo (pend c ds) \<Longrightarrow> c \<in> visited s \<Longrightarrow> set ds \<subseteq> set directions \<Longrightarrow>
     explore c ds s = Inr s' \<Longrightarrow> lvl_inv s' lo {}"
proof (induction ds arbitrary: s)
  case Nil
  then show ?case by (simp add: pend_def)
next
  case (Cons d ds)
  from Cons.prems(4) obtain s1 where s1: "try_visit c d s = Inr s1" and rest: "explore c ds s1 = Inr s'"
    by (auto split: sum.splits)
  from Cons.prems(3) have d: "d \<in> set directions" and ds: "set ds \<subseteq> set directions" by auto
  from try_visit_lvl [OF Cons.prems(1,2) d s1]
  have "lvl_inv s1 lo (pend c ds)" "c \<in> visited s1" by blast+
  then show ?case using ds rest by (rule Cons.IH)
qed

lemma pop_lvl:
  assumes inv: "lvl_inv s lo {}" and q: "queue s = c # rest"
  shows "lvl_inv (s\<lparr>queue := rest\<rparr>) (dist (b_self s) c) (pend c directions)"
proof -
  note I = lvl_invD [OF inv]
  let ?m = "b_self s"
  from I(6) [of c] q have lo: "lo \<le> dist ?m c" by simp
  from I(5) q have srt: "\<forall>x \<in> set rest. dist ?m c \<le> dist ?m x" by simp
  show ?thesis
  proof (rule lvl_invI)
    show "start (b_self (s\<lparr>queue := rest\<rparr>)) \<in> visited (s\<lparr>queue := rest\<rparr>)" using I(1) by simp
    show "set (queue (s\<lparr>queue := rest\<rparr>)) \<subseteq> visited (s\<lparr>queue := rest\<rparr>)" using I(2) q by auto
    show "dom (parent (s\<lparr>queue := rest\<rparr>)) = visited (s\<lparr>queue := rest\<rparr>)" using I(3) by simp
    show "sorted (map (dist (b_self (s\<lparr>queue := rest\<rparr>))) (queue (s\<lparr>queue := rest\<rparr>)))"
      using I(5) q by simp
  next
    fix v assume "v \<in> visited (s\<lparr>queue := rest\<rparr>)"
    with I(4) [of v]
    show "\<exists>xs. chain (parent (s\<lparr>queue := rest\<rparr>)) v xs \<and>
         is_walk (b_self (s\<lparr>queue := rest\<rparr>)) (start (b_self (s\<lparr>queue := rest\<rparr>))) v xs \<and>
         length xs = Suc (dist (b_self (s\<lparr>queue := rest\<rparr>)) v)" by simp
  next
    fix v assume "v \<in> set (queue (s\<lparr>queue := rest\<rparr>))"
    then have v: "v \<in> set rest" by simp
    with I(6) [of v] q lo srt
    show "dist ?m c \<le> dist (b_self (s\<lparr>queue := rest\<rparr>)) v \<and>
          dist (b_self (s\<lparr>queue := rest\<rparr>)) v \<le> Suc (dist ?m c)" by auto
  next
    fix v assume "v \<in> visited (s\<lparr>queue := rest\<rparr>)" "v \<notin> set (queue (s\<lparr>queue := rest\<rparr>))"
    then have v: "v \<in> visited s" "v \<notin> set rest" by simp_all
    show "dist (b_self (s\<lparr>queue := rest\<rparr>)) v \<le> dist ?m c"
    proof (cases "v = c")
      case True
      then show ?thesis by simp
    next
      case False
      with v q I(7) [of v] lo show ?thesis by simp
    qed
  next
    fix v n assume "v \<in> visited (s\<lparr>queue := rest\<rparr>)" "v \<notin> set (queue (s\<lparr>queue := rest\<rparr>))"
      and adj: "adjacent v n" and "is_open (b_self (s\<lparr>queue := rest\<rparr>)) n"
    then have v: "v \<in> visited s" "v \<notin> set rest" and op: "is_open ?m n" by simp_all
    show "n \<in> visited (s\<lparr>queue := rest\<rparr>) \<or> (v, n) \<in> pend c directions"
    proof (cases "v = c")
      case True
      with adj show ?thesis by (auto simp: adjacent_shift pend_def)
    next
      case False
      with v q I(8) [of v n] adj op show ?thesis by simp
    qed
  next
    fix e assume "e \<in> pend c directions"
    then show "dist (b_self (s\<lparr>queue := rest\<rparr>)) (fst e) = dist ?m c"
      by (auto simp: pend_def)
  qed
qed

lemma bfs_shortest:
  "lvl_inv s lo {} \<Longrightarrow> bfs s = Some (Inr (p, m')) \<Longrightarrow> p \<noteq> [] \<Longrightarrow>
     length p = Suc (dist (b_self s) (end_cell (b_self s)))"
proof (induction s arbitrary: lo rule: bfs.induct)
  case (1 s)
  note I = lvl_invD [OF "1.prems"(1)]
  show ?case
  proof (cases "queue s")
    case Nil
    with "1.prems" show ?thesis by (simp add: bfs.simps [of s])
  next
    case (Cons c rest)
    with I(2) have c: "c \<in> visited s" by simp
    show ?thesis
    proof (cases "c = end_cell (b_self s)")
      case True
      from I(4) [OF c] obtain xs where xs: "chain (parent s) c xs"
        "length xs = Suc (dist (b_self s) c)" by blast
      from chain_reconstruct [OF xs(1), of "[]"] True Cons "1.prems"(2) xs(2) show ?thesis
        by (auto simp: bfs.simps [of s])
    next
      case False
      obtain s' where s': "explore c directions (s\<lparr>queue := rest\<rparr>) = Inr s'"
        using explore_total by blast
      from pop_lvl [OF "1.prems"(1) Cons]
      have "lvl_inv (s\<lparr>queue := rest\<rparr>) (dist (b_self s) c) (pend c directions)" .
      then have inv': "lvl_inv s' (dist (b_self s) c) {}"
        by (rule explore_lvl [OF _ _ _ s']) (use c in simp_all)
      from explore_progress [OF s'] have self: "b_self s' = b_self s" by simp
      from "1.prems"(2) False Cons s' have ret: "bfs s' = Some (Inr (p, m'))"
        by (simp add: bfs.simps [of s])
      from "1.IH" [OF Cons False s' inv' ret "1.prems"(3)] self show ?thesis by simp
    qed
  qed
qed

lemma dist_start: "dist m (start m) = 0"
proof -
  have "is_walk m (start m) (start m) [start m]" by (simp add: is_walk_def)
  from dist_le [OF this] show ?thesis by simp
qed

lemma solve_maze_shortest:
  assumes "solve_maze m = Some (Inr (p, m'))" and "p \<noteq> []"
  shows "length p = Suc (dist m (end_cell m))"
proof -
  let ?s = "\<lparr>b_self = m, queue = [start m], visited = {start m}, parent = [start m \<mapsto> None]\<rparr>"
  have "chain [start m \<mapsto> None] (start m) [start m]" by (rule chain.root) simp
  moreover have "is_walk m (start m) (start m) [start m]" by (simp add: is_walk_def)
  ultimately have "lvl_inv ?s 0 {}"
    by (intro lvl_invI) (auto simp: dist_start)
  from bfs_shortest [OF this] assms show ?thesis by (simp add: solve_maze_def)
qed

section \<open>The returned path is a shortest one\<close>

text \<open>
  Claim C1. For every field, if \<open>solve_maze\<close> returns a non-empty path, then the path is
  a walk from start to end by unit axial steps onto open cells, and no such walk has
  fewer cells: its edge count is the breadth-first distance from start to end.
\<close>

theorem solve_maze_shortest_path:
  assumes "solve_maze m = Some (Inr (p, m'))" and "p \<noteq> []"
  shows "is_walk m (start m) (end_cell m) p \<and>
         (\<forall>w. is_walk m (start m) (end_cell m) w \<longrightarrow> length p \<le> length w)"
proof -
  from solve_maze_returns [of m] assms have w: "is_walk m (start m) (end_cell m) p"
    by auto
  from solve_maze_shortest [OF assms] have "length p = Suc (dist m (end_cell m))" .
  with dist_le w show ?thesis by auto
qed

theorem solve_maze_shortest_path_witness:
  "solve_maze corridor = Some (Inr ([(0, 0, 0), (0, 0, 1), (0, 0, 2)], corridor)) \<and>
   [(0, 0, 0), (0, 0, 1), (0, 0, 2)] \<noteq> ([] :: coord list) \<and>
   is_walk corridor (start corridor) (end_cell corridor)
     [(0, 0, 0), (0, 0, 1), (0, 0, 0), (0, 0, 1), (0, 0, 2)] \<and>
   is_walk corridor (start corridor) (end_cell corridor) [(0, 0, 0), (0, 0, 1), (0, 0, 2)] \<and>
   length [(0, 0, 0), (0, 0, 1), (0, 0, 2) :: coord]
     \<le> length [(0, 0, 0), (0, 0, 1), (0, 0, 0), (0, 0, 1), (0, 0, 2) :: coord]"
proof -
  have ret: "solve_maze corridor = Some (Inr ([(0, 0, 0), (0, 0, 1), (0, 0, 2)], corridor))"
    by (rule solve_corridor)
  have w: "is_walk corridor (start corridor) (end_cell corridor)
     [(0, 0, 0), (0, 0, 1), (0, 0, 0), (0, 0, 1), (0, 0, 2)]"
    by (simp add: is_walk_def is_open_def corridor_def)
  from solve_maze_shortest_path [OF ret] w ret show ?thesis by blast
qed

section \<open>Fields and what generation keeps\<close>

text \<open>
  \<open>GridField\<close>: the dimensions are positive, start is \<open>(0, 0, 0)\<close> and end is the far
  corner, as the constructor sets them; the cells are arbitrary. \<open>only_opens m m'\<close>: the
  two objects differ in the grid only, and every cell of \<open>m'\<close> holds what it held in \<open>m\<close>
  or holds 0.
\<close>

definition GridField :: "Maze3D \<Rightarrow> bool" where
  "GridField m \<longleftrightarrow>
     0 < depth m \<and> 0 < height m \<and> 0 < width m \<and>
     start m = (0, 0, 0) \<and> end_cell m = (depth m - 1, height m - 1, width m - 1)"

definition only_opens :: "Maze3D \<Rightarrow> Maze3D \<Rightarrow> bool" where
  "only_opens m m' \<longleftrightarrow>
     width m' = width m \<and> height m' = height m \<and> depth m' = depth m \<and>
     start m' = start m \<and> end_cell m' = end_cell m \<and>
     (\<forall>c. grid m' c = grid m c \<or> grid m' c = 0)"

lemma only_opens_refl: "only_opens m m"
  by (simp add: only_opens_def)

lemma only_opens_trans: "only_opens a b \<Longrightarrow> only_opens b c \<Longrightarrow> only_opens a c"
  unfolding only_opens_def by metis

lemma grid_set_only_opens: "grid_set m c 0 = Inr m' \<Longrightarrow> only_opens m m'"
  by (auto simp: grid_set_def only_opens_def split: if_splits)

lemma only_opens_in_bounds: "only_opens m m' \<Longrightarrow> in_bounds m' c = in_bounds m c"
  by (cases c) (simp add: only_opens_def)

lemma only_opens_is_open:
  assumes "only_opens m m'" and "is_open m c"
  shows "is_open m' c"
proof -
  from assms(1) have "grid m' c = grid m c \<or> grid m' c = 0" unfolding only_opens_def by blast
  with assms only_opens_in_bounds [OF assms(1), of c] show ?thesis
    unfolding is_open_def by presburger
qed

lemma only_opens_GridField: "only_opens m m' \<Longrightarrow> GridField m \<Longrightarrow> GridField m'"
  by (simp add: only_opens_def GridField_def)

lemma grid_set_open: "grid_set m c 0 = Inr m' \<Longrightarrow> is_open m' c"
  by (cases c) (auto simp: grid_set_def is_open_def split: if_splits)

lemma carve_step_only_opens:
  assumes "carve_step s = Inr s'"
  shows "only_opens (c_self s) (c_self s')"
  using carve_step_cases [OF assms]
proof
  assume "s' = s\<lparr>stack := butlast (stack s)\<rparr> \<and> stack s \<noteq> [] \<and>
            neighbors_of (c_self s) (visited_cells s) (last (stack s)) = []"
  then show ?thesis by (simp add: only_opens_refl)
next
  assume "\<exists>z y x nz ny nx dz dy dx m1 m2.
            stack s \<noteq> [] \<and> last (stack s) = (z, y, x) \<and>
            (nz, ny, nx, dz, dy, dx) \<in> set (neighbors_of (c_self s) (visited_cells s) (z, y, x)) \<and>
            grid_set (c_self s) (z + dz, y + dy, x + dx) 0 = Inr m1 \<and>
            grid_set m1 (nz, ny, nx) 0 = Inr m2 \<and>
            s' = s\<lparr>c_self := m2, visited_cells := insert (nz, ny, nx) (visited_cells s),
                   stack := stack s @ [(nz, ny, nx)], c_rng := rng_tail (c_rng s)\<rparr>"
  then obtain w n m1 m2 where g1: "grid_set (c_self s) w 0 = Inr m1"
    and g2: "grid_set m1 n 0 = Inr m2" and s': "c_self s' = m2"
    by auto
  from grid_set_only_opens [OF g1] grid_set_only_opens [OF g2] s' show ?thesis
    by (auto intro: only_opens_trans)
qed

lemma carve_only_opens: "carve s = Inr s' \<Longrightarrow> only_opens (c_self s) (c_self s')"
proof (induction s rule: carve.induct)
  case (1 s)
  show ?case
  proof (cases "stack s = []")
    case True
    with "1.prems" show ?thesis by (simp add: carve.simps [of s] only_opens_refl)
  next
    case False
    with "1.prems" obtain s1 where s1: "carve_step s = Inr s1" and rest: "carve s1 = Inr s'"
      by (auto simp: carve.simps [of s] split: sum.splits)
    from carve_step_only_opens [OF s1] "1.IH" [OF False s1 rest] show ?thesis
      by (rule only_opens_trans)
  qed
qed

lemma carve_phase_only_opens:
  assumes "carve_phase m r = Inr s"
  shows "only_opens m (c_self s)"
proof -
  from assms obtain s0 where s0: "carve_init m r = Inr s0" and c: "carve s0 = Inr s"
    by (auto simp: carve_phase_def split: sum.splits)
  from s0 have "only_opens m (c_self s0)"
    by (auto simp: carve_init_def split: sum.splits intro: grid_set_only_opens)
  with carve_only_opens [OF c] show ?thesis by (blast intro: only_opens_trans)
qed

lemma random_opening_only_opens:
  assumes "random_opening m r = Inr (m', r')"
  shows "only_opens m m'"
proof -
  from assms obtain c where "grid_set m c 0 = Inr m'"
    by (auto simp: random_opening_def split: sum.splits)
  then show ?thesis by (rule grid_set_only_opens)
qed

lemma random_openings_only_opens:
  "random_openings k m r = Inr (m', r') \<Longrightarrow> only_opens m m'"
proof (induction k arbitrary: m r)
  case 0
  then show ?case by (simp add: only_opens_refl)
next
  case (Suc k)
  from Suc.prems obtain m1 r1 where a: "random_opening m r = Inr (m1, r1)"
    and b: "random_openings k m1 r1 = Inr (m', r')"
    by (auto split: sum.splits)
  from random_opening_only_opens [OF a] Suc.IH [OF b] show ?case by (rule only_opens_trans)
qed

lemma finish_maze_only_opens:
  assumes "finish_maze m r = Inr (m', r')"
  shows "only_opens m m' \<and> is_open m' (start m) \<and> is_open m' (end_cell m)"
proof -
  from assms obtain m1 m2 where a: "grid_set m (start m) 0 = Inr m1"
    and b: "grid_set m1 (end_cell m1) 0 = Inr m2"
    and c: "random_openings (nat (min 5 ((width m2 * height m2 * depth m2) div 20))) m2 r = Inr (m', r')"
    by (auto simp: finish_maze_def split: sum.splits)
  note oa = grid_set_only_opens [OF a] and ob = grid_set_only_opens [OF b]
    and oc = random_openings_only_opens [OF c]
  from oa ob oc have 1: "only_opens m m'" by (blast intro: only_opens_trans)
  from grid_set_open [OF a] ob oc have 2: "is_open m' (start m)"
    by (blast intro: only_opens_is_open)
  from oa have "end_cell m1 = end_cell m" by (simp add: only_opens_def)
  with grid_set_open [OF b] oc have 3: "is_open m' (end_cell m)"
    by (auto intro: only_opens_is_open)
  from 1 2 3 show ?thesis by blast
qed

lemma generate_maze_only_opens:
  assumes "generate_maze m r = Inr (m', r')"
  shows "only_opens m m' \<and> is_open m' (start m) \<and> is_open m' (end_cell m)"
proof -
  from assms obtain s where s: "carve_phase m r = Inr s"
    and f: "finish_maze (c_self s) (c_rng s) = Inr (m', r')"
    by (auto simp: generate_maze_def split: sum.splits)
  note o = carve_phase_only_opens [OF s]
  then have "start (c_self s) = start m" "end_cell (c_self s) = end_cell m"
    by (simp_all add: only_opens_def)
  with finish_maze_only_opens [OF f] o show ?thesis by (auto intro: only_opens_trans)
qed

section \<open>Generation returns\<close>

text \<open>
  The loop keeps its stack inside the visited set and the visited set inside the
  dimensions, so the wall cell between the top of the stack and the chosen neighbour is
  inside the dimensions too.
\<close>

definition carve_ok :: "carve_state \<Rightarrow> bool" where
  "carve_ok s \<longleftrightarrow> set (stack s) \<subseteq> visited_cells s \<and> visited_cells s \<subseteq> box (c_self s)"

lemma wall_in_bounds:
  "in_bounds m (z, y, x) \<Longrightarrow> in_bounds m (z + dz * 2, y + dy * 2, x + dx * 2) \<Longrightarrow>
     (dz, dy, dx) \<in> set directions \<Longrightarrow> in_bounds m (z + dz, y + dy, x + dx)"
  by (auto simp: directions_def)

lemma grid_set_in_bounds: "in_bounds m c \<Longrightarrow> \<exists>m'. grid_set m c v = Inr m'"
  by (simp add: grid_set_def)

lemma carve_step_ok:
  assumes ok: "carve_ok s" and ne: "stack s \<noteq> []"
  shows "\<exists>s'. carve_step s = Inr s' \<and> carve_ok s'"
proof -
  obtain z y x where top: "last (stack s) = (z, y, x)" by (cases "last (stack s)") auto
  from ok ne top have tb: "in_bounds (c_self s) (z, y, x)"
    using last_in_set [OF ne] by (auto simp: carve_ok_def in_bounds_box)
  let ?ns = "neighbors_of (c_self s) (visited_cells s) (z, y, x)"
  show ?thesis
  proof (cases "?ns = []")
    case True
    with ne top have "carve_step s = Inr (s\<lparr>stack := butlast (stack s)\<rparr>)"
      by (simp add: carve_step_def)
    moreover from ok have "carve_ok (s\<lparr>stack := butlast (stack s)\<rparr>)"
      by (auto simp: carve_ok_def dest: in_set_butlastD)
    ultimately show ?thesis by blast
  next
    case False
    let ?a = "?ns ! (c_rng s 0 mod length ?ns)"
    from False have mem: "?a \<in> set ?ns" by simp
    obtain nz ny nx dz dy dx where a: "?a = (nz, ny, nx, dz, dy, dx)" by (cases ?a) auto
    from neighbors_of_mem [OF mem [unfolded a]]
    have dir: "(dz, dy, dx) \<in> set directions"
      and n: "nz = z + dz * 2" "ny = y + dy * 2" "nx = x + dx * 2"
      and nb: "in_bounds (c_self s) (nz, ny, nx)" and nv: "(nz, ny, nx) \<notin> visited_cells s"
      by blast+
    from wall_in_bounds [OF tb nb [unfolded n] dir]
    obtain m1 where m1: "grid_set (c_self s) (z + dz, y + dy, x + dx) 0 = Inr m1"
      using grid_set_in_bounds by blast
    from only_opens_in_bounds [OF grid_set_only_opens [OF m1]] nb
    have "in_bounds m1 (nz, ny, nx)" by blast
    then obtain m2 where m2: "grid_set m1 (nz, ny, nx) 0 = Inr m2"
      using grid_set_in_bounds by blast
    let ?s' = "s\<lparr>c_self := m2, visited_cells := insert (nz, ny, nx) (visited_cells s),
                 stack := stack s @ [(nz, ny, nx)], c_rng := rng_tail (c_rng s)\<rparr>"
    from False ne top a m1 m2 have "carve_step s = Inr ?s'"
      by (simp add: carve_step_def choice_def)
    moreover from m1 m2 have "box m2 = box (c_self s)" by (simp add: grid_set_box)
    with ok nb have "carve_ok ?s'" by (auto simp: carve_ok_def in_bounds_box)
    ultimately show ?thesis by blast
  qed
qed

lemma carve_returns: "carve_ok s \<Longrightarrow> \<exists>s'. carve s = Inr s' \<and> stack s' = []"
proof (induction s rule: carve.induct)
  case (1 s)
  show ?case
  proof (cases "stack s = []")
    case True
    then show ?thesis by (simp add: carve.simps [of s])
  next
    case False
    from carve_step_ok [OF "1.prems" False] obtain s1 where
      s1: "carve_step s = Inr s1" and ok1: "carve_ok s1" by blast
    from "1.IH" [OF False s1 ok1] False s1 show ?thesis by (simp add: carve.simps [of s])
  qed
qed

lemma GridField_bounds:
  assumes "GridField m"
  shows "in_bounds m (start m)" and "in_bounds m (end_cell m)"
  using assms by (simp_all add: GridField_def)

lemma carve_phase_returns:
  assumes "GridField m"
  shows "\<exists>s. carve_phase m r = Inr s \<and> stack s = []"
proof -
  from GridField_bounds(1) [OF assms] obtain m0 where m0: "grid_set m (start m) 0 = Inr m0"
    using grid_set_in_bounds by blast
  let ?s0 = "\<lparr>c_self = m0, stack = [start m], visited_cells = {start m}, c_rng = r\<rparr>"
  from m0 have "box m0 = box m" by (rule grid_set_box)
  with GridField_bounds(1) [OF assms] have "carve_ok ?s0"
    by (simp add: carve_ok_def in_bounds_box)
  from carve_returns [OF this] m0 show ?thesis
    by (simp add: carve_phase_def carve_init_def)
qed

lemma randint_range:
  assumes "0 < n"
  shows "\<exists>v. randint 0 (n - 1) r = Inr (v, rng_tail r) \<and> 0 \<le> v \<and> v < n"
proof -
  from assms have "r 0 mod nat n < nat n" by simp
  with assms have "int (r 0 mod nat n) < n" by linarith
  with assms show ?thesis by (simp add: randint_def)
qed

lemma random_opening_returns:
  assumes "0 < depth m" "0 < height m" "0 < width m"
  shows "\<exists>m' r'. random_opening m r = Inr (m', r')"
proof -
  from randint_range [OF assms(1)] obtain z where
    z: "randint 0 (depth m - 1) r = Inr (z, rng_tail r)" "0 \<le> z" "z < depth m" by blast
  from randint_range [OF assms(2)] obtain y where
    y: "randint 0 (height m - 1) (rng_tail r) = Inr (y, rng_tail (rng_tail r))" "0 \<le> y" "y < height m"
    by blast
  from randint_range [OF assms(3)] obtain x where
    x: "randint 0 (width m - 1) (rng_tail (rng_tail r)) = Inr (x, rng_tail (rng_tail (rng_tail r)))"
       "0 \<le> x" "x < width m"
    by blast
  from z y x have "in_bounds m (z, y, x)" by simp
  then obtain m' where "grid_set m (z, y, x) 0 = Inr m'" using grid_set_in_bounds by blast
  with z(1) y(1) x(1) show ?thesis by (simp add: random_opening_def)
qed

lemma random_openings_returns:
  "0 < depth m \<Longrightarrow> 0 < height m \<Longrightarrow> 0 < width m \<Longrightarrow>
     \<exists>m' r'. random_openings k m r = Inr (m', r')"
proof (induction k arbitrary: m r)
  case 0
  show ?case by simp
next
  case (Suc k)
  from random_opening_returns [OF Suc.prems] obtain m1 r1 where
    a: "random_opening m r = Inr (m1, r1)" by blast
  from random_opening_only_opens [OF a] Suc.prems
  have "0 < depth m1" "0 < height m1" "0 < width m1" by (simp_all add: only_opens_def)
  from Suc.IH [OF this] a show ?case by simp
qed

lemma finish_maze_returns:
  assumes "GridField m"
  shows "\<exists>m' r'. finish_maze m r = Inr (m', r')"
proof -
  from GridField_bounds(1) [OF assms] obtain m1 where m1: "grid_set m (start m) 0 = Inr m1"
    using grid_set_in_bounds by blast
  from only_opens_GridField [OF grid_set_only_opens [OF m1] assms] have g1: "GridField m1" .
  from GridField_bounds(2) [OF g1] obtain m2 where m2: "grid_set m1 (end_cell m1) 0 = Inr m2"
    using grid_set_in_bounds by blast
  from only_opens_GridField [OF grid_set_only_opens [OF m2] g1] have "GridField m2" .
  then have "0 < depth m2" "0 < height m2" "0 < width m2" by (simp_all add: GridField_def)
  from random_openings_returns [OF this] m1 m2 show ?thesis
    by (simp add: finish_maze_def)
qed

lemma generate_maze_returns:
  assumes "GridField m"
  shows "\<exists>m' r'. generate_maze m r = Inr (m', r')"
proof -
  from carve_phase_returns [OF assms] obtain s where s: "carve_phase m r = Inr s" by blast
  from only_opens_GridField [OF carve_phase_only_opens [OF s] assms]
  have "GridField (c_self s)" .
  from finish_maze_returns [OF this] s show ?thesis by (simp add: generate_maze_def)
qed

section \<open>More example fields\<close>

definition fresh_corridor :: Maze3D where
  "fresh_corridor = \<lparr>width = 3, height = 1, depth = 1, grid = (\<lambda>_. 1),
     start = (0, 0, 0), end_cell = (0, 0, 2)\<rparr>"

definition half_open :: Maze3D where
  "half_open = \<lparr>width = 2, height = 2, depth = 1,
     grid = (\<lambda>c. if c = (0, 0, 1) then 0 else 1), start = (0, 0, 0), end_cell = (0, 1, 1)\<rparr>"

lemmas generate_eval = generate_maze_def carve_phase_def carve_init_def finish_maze_def
  grid_set_def carve.simps carve_step_def neighbors_of_def directions_def choice_def
  rng_tail_def Let_def

lemma GridField_fresh_corridor: "GridField fresh_corridor"
  by (simp add: GridField_def fresh_corridor_def)

lemma GridField_half_open: "GridField half_open"
  by (simp add: GridField_def half_open_def)

lemma generate_fresh_corridor:
  "generate_maze fresh_corridor (\<lambda>_. 0) =
     Inr (fresh_corridor\<lparr>grid := (\<lambda>_. 1)((0, 0, 1) := 0, (0, 0, 2) := 0, (0, 0, 0) := 0)\<rparr>, \<lambda>_. 0)"
  apply (simp add: generate_eval fresh_corridor_def)
  apply (auto simp: fun_eq_iff)
  done

lemma generate_half_open:
  "generate_maze half_open (\<lambda>_. 0) =
     Inr (half_open\<lparr>grid := (grid half_open)((0, 0, 0) := 0, (0, 1, 1) := 0)\<rparr>, \<lambda>_. 0)"
  by (simp add: generate_eval half_open_def)

section \<open>Start and end are open after generation\<close>

text \<open>
  Claim C3. For every field with positive dimensions and every sequence of random
  choices, \<open>generate_maze\<close> returns, and in the field it leaves the cell at start
  \<open>(0, 0, 0)\<close> and the cell at end \<open>(depth - 1, height - 1, width - 1)\<close> are open.
\<close>

theorem generate_maze_opens_start_end:
  assumes "GridField m"
  shows "\<exists>m' r'. generate_maze m r = Inr (m', r') \<and> GridField m' \<and>
           is_open m' (start m') \<and> is_open m' (end_cell m') \<and>
           is_open m' (0, 0, 0) \<and> is_open m' (depth m - 1, height m - 1, width m - 1)"
proof -
  from generate_maze_returns [OF assms] obtain m' r' where
    g: "generate_maze m r = Inr (m', r')" by blast
  from generate_maze_only_opens [OF g]
  have o: "only_opens m m'" and s: "is_open m' (start m)" and e: "is_open m' (end_cell m)"
    by blast+
  from o have eq: "start m' = start m" "end_cell m' = end_cell m" by (simp_all add: only_opens_def)
  from assms have se: "start m = (0, 0, 0)" "end_cell m = (depth m - 1, height m - 1, width m - 1)"
    by (simp_all add: GridField_def)
  from only_opens_GridField [OF o assms] g s e eq se show ?thesis by auto
qed

theorem generate_maze_opens_start_end_witness:
  "GridField fresh_corridor \<and>
   (\<exists>m' r'. generate_maze fresh_corridor (\<lambda>_. 0) = Inr (m', r') \<and>
      is_open m' (0, 0, 0) \<and> is_open m' (0, 0, 2))"
proof -
  have g: "GridField fresh_corridor" by (rule GridField_fresh_corridor)
  from generate_maze_opens_start_end [OF g, of "\<lambda>_. 0"] obtain m' r' where
    "generate_maze fresh_corridor (\<lambda>_. 0) = Inr (m', r')" "is_open m' (0, 0, 0)"
    "is_open m' (depth fresh_corridor - 1, height fresh_corridor - 1, width fresh_corridor - 1)"
    by blast
  then show ?thesis using g by (auto simp: fresh_corridor_def)
qed

section \<open>Every index lies inside the dimensions\<close>

text \<open>
  Claim C8. For every field with positive dimensions and every sequence of random
  choices, \<open>generate_maze\<close> returns without an error, and so does \<open>solve_maze\<close>, on the
  generated field and on the given one. Reading or writing the grid outside
  \<open>0 \<le> z < depth\<close>, \<open>0 \<le> y < height\<close>, \<open>0 \<le> x < width\<close> is the error branch of
  \<open>grid_get\<close> and \<open>grid_set\<close>, which is therefore never taken: not by the write to the
  wall cell at distance 1, and not by the random openings.
\<close>

theorem generate_solve_in_bounds:
  assumes "GridField m"
  shows "\<exists>m' r' p q. generate_maze m r = Inr (m', r') \<and>
           solve_maze m' = Some (Inr (p, m')) \<and> solve_maze m = Some (Inr (q, m))"
proof -
  from generate_maze_returns [OF assms] obtain m' r' where
    "generate_maze m r = Inr (m', r')" by blast
  with solve_maze_returns [of m'] solve_maze_returns [of m] show ?thesis by blast
qed

theorem generate_solve_in_bounds_witness:
  "GridField half_open \<and>
   (\<exists>m' r' p q. generate_maze half_open (\<lambda>_. 0) = Inr (m', r') \<and>
      solve_maze m' = Some (Inr (p, m')) \<and> solve_maze half_open = Some (Inr (q, half_open)))"
  using generate_solve_in_bounds [OF GridField_half_open, of "\<lambda>_. 0"] GridField_half_open
  by blast

section \<open>Generation never blocks a cell\<close>

text \<open>
  Claim C10. For every initial field, all-blocked or not, and every sequence of random
  choices: every pass of the carving loop and every random opening leaves each cell as
  it was or open, the field after the loop and the field returned differ from the
  initial one only by cells that now hold 0, and any cell open before the call is open
  after it.
\<close>

theorem generate_maze_never_blocks:
  assumes "generate_maze m r = Inr (m', r')"
  shows "only_opens m m' \<and> (\<forall>c. is_open m c \<longrightarrow> is_open m' c) \<and>
         (\<exists>s. carve_phase m r = Inr s \<and> only_opens m (c_self s) \<and> only_opens (c_self s) m') \<and>
         (\<forall>s s'. carve_step s = Inr s' \<longrightarrow> only_opens (c_self s) (c_self s')) \<and>
         (\<forall>a ra b rb. random_opening a ra = Inr (b, rb) \<longrightarrow> only_opens a b)"
proof -
  from assms obtain s where s: "carve_phase m r = Inr s"
    and f: "finish_maze (c_self s) (c_rng s) = Inr (m', r')"
    by (auto simp: generate_maze_def split: sum.splits)
  from generate_maze_only_opens [OF assms] have o: "only_opens m m'" by blast
  then have "\<forall>c. is_open m c \<longrightarrow> is_open m' c" by (blast intro: only_opens_is_open)
  moreover from s carve_phase_only_opens [OF s] finish_maze_only_opens [OF f]
  have "\<exists>s. carve_phase m r = Inr s \<and> only_opens m (c_self s) \<and> only_opens (c_self s) m'"
    by blast
  ultimately show ?thesis
    using o carve_step_only_opens random_opening_only_opens by blast
qed

theorem generate_maze_never_blocks_witness:
  "generate_maze half_open (\<lambda>_. 0) =
     Inr (half_open\<lparr>grid := (grid half_open)((0, 0, 0) := 0, (0, 1, 1) := 0)\<rparr>, \<lambda>_. 0) \<and>
   is_open half_open (0, 0, 1) \<and>
   is_open (half_open\<lparr>grid := (grid half_open)((0, 0, 0) := 0, (0, 1, 1) := 0)\<rparr>) (0, 0, 1) \<and>
   only_opens half_open (half_open\<lparr>grid := (grid half_open)((0, 0, 0) := 0, (0, 1, 1) := 0)\<rparr>)"
proof -
  have op: "is_open half_open (0, 0, 1)" by (simp add: is_open_def half_open_def)
  from generate_maze_never_blocks [OF generate_half_open] op generate_half_open
  show ?thesis by blast
qed

section \<open>The retry loop of main\<close>

text \<open>
  The \<open>for\<close> loop of \<open>main\<close> with its \<open>else\<close> branch; printing and drawing are left
  out. \<open>Solved\<close> holds the locals \<open>maze\<close>, \<open>path\<close> and \<open>attempt\<close> at the \<open>break\<close>;
  \<open>Exhausted\<close> is the \<open>return\<close> of the \<open>else\<close> branch. The bound and the dimensions, which
  \<open>main\<close> writes as the literals 10 and 9, 9, 5, are parameters of the loop.
\<close>

datatype outcome = Solved Maze3D "coord list" nat | Exhausted

definition attempt_body ::
  "int \<Rightarrow> int \<Rightarrow> int \<Rightarrow> rng \<Rightarrow> (error + (Maze3D \<times> coord list \<times> rng)) option" where
  "attempt_body w h d r =
     (case Maze3D_init w h d of
        Inl e \<Rightarrow> Some (Inl e)
      | Inr maze \<Rightarrow>
          (case generate_maze maze r of
             Inl e \<Rightarrow> Some (Inl e)
           | Inr (maze1, r1) \<Rightarrow>
               (case solve_maze maze1 of
                  None \<Rightarrow> None
                | Some (Inl e) \<Rightarrow> Some (Inl e)
                | Some (Inr (path, maze2)) \<Rightarrow> Some (Inr (maze2, path, r1)))))"

fun attempts_loop ::
  "int \<Rightarrow> int \<Rightarrow> int \<Rightarrow> nat list \<Rightarrow> rng \<Rightarrow> (error + outcome) option" where
  "attempts_loop w h d [] r = Some (Inr Exhausted)"
| "attempts_loop w h d (attempt # rest) r =
     (case attempt_body w h d r of
        None \<Rightarrow> None
      | Some (Inl e) \<Rightarrow> Some (Inl e)
      | Some (Inr (maze, path, r1)) \<Rightarrow>
          if path \<noteq> [] then Some (Inr (Solved maze path attempt))
          else attempts_loop w h d rest r1)"

definition supervisor :: "nat \<Rightarrow> int \<Rightarrow> int \<Rightarrow> int \<Rightarrow> rng \<Rightarrow> (error + outcome) option" where
  "supervisor max_attempts w h d r = attempts_loop w h d [1..<max_attempts + 1] r"

definition main_loop :: "rng \<Rightarrow> (error + outcome) option" where
  "main_loop r = supervisor 10 9 9 5 r"

text \<open>
  The attempts as the specification describes them: one after another, each a fresh
  field carved and searched, each drawing from the generator where the one before left
  it. \<open>nth_attempt w h d r j\<close> is attempt number \<open>j + 1\<close>.
\<close>

fun nth_attempt ::
  "int \<Rightarrow> int \<Rightarrow> int \<Rightarrow> rng \<Rightarrow> nat \<Rightarrow> (error + (Maze3D \<times> coord list \<times> rng)) option" where
  "nth_attempt w h d r 0 = attempt_body w h d r"
| "nth_attempt w h d r (Suc j) =
     (case attempt_body w h d r of
        Some (Inr (maze, path, r1)) \<Rightarrow> nth_attempt w h d r1 j
      | other \<Rightarrow> other)"

lemma Maze3D_init_GridField:
  assumes "0 < w" "0 < h" "0 < d"
  shows "\<exists>m. Maze3D_init w h d = Inr m \<and> GridField m"
  using assms by (simp add: Maze3D_init_def GridField_def)

lemma attempt_body_returns:
  assumes "0 < w" "0 < h" "0 < d"
  shows "\<exists>maze path r1. attempt_body w h d r = Some (Inr (maze, path, r1))"
proof -
  from Maze3D_init_GridField [OF assms] obtain m where m: "Maze3D_init w h d = Inr m" "GridField m"
    by blast
  from generate_maze_returns [OF m(2)] obtain m1 r1 where g: "generate_maze m r = Inr (m1, r1)"
    by blast
  from solve_maze_returns [of m1] obtain p where "solve_maze m1 = Some (Inr (p, m1))" by blast
  with m(1) g show ?thesis by (simp add: attempt_body_def)
qed

definition empty_until :: "int \<Rightarrow> int \<Rightarrow> int \<Rightarrow> rng \<Rightarrow> nat \<Rightarrow> bool" where
  "empty_until w h d r k \<longleftrightarrow>
     (\<forall>j < k. \<exists>maze r'. nth_attempt w h d r j = Some (Inr (maze, [], r')))"

lemma empty_until_0: "empty_until w h d r 0"
  by (simp add: empty_until_def)

lemma empty_until_Suc:
  assumes "attempt_body w h d r = Some (Inr (maze, [], r1))"
  shows "empty_until w h d r (Suc k) \<longleftrightarrow> empty_until w h d r1 k"
proof
  assume a: "empty_until w h d r (Suc k)"
  show "empty_until w h d r1 k"
    unfolding empty_until_def
  proof (intro allI impI)
    fix j assume "j < k"
    then have "Suc j < Suc k" by simp
    moreover from a have "\<forall>j < Suc k. \<exists>maze r'. nth_attempt w h d r j = Some (Inr (maze, [], r'))"
      unfolding empty_until_def .
    ultimately have "\<exists>maze r'. nth_attempt w h d r (Suc j) = Some (Inr (maze, [], r'))"
      by blast
    with assms show "\<exists>maze r'. nth_attempt w h d r1 j = Some (Inr (maze, [], r'))" by simp
  qed
next
  assume a: "empty_until w h d r1 k"
  show "empty_until w h d r (Suc k)"
    unfolding empty_until_def
  proof (intro allI impI)
    fix j assume j: "j < Suc k"
    show "\<exists>maze r'. nth_attempt w h d r j = Some (Inr (maze, [], r'))"
    proof (cases j)
      case 0
      with assms show ?thesis by simp
    next
      case (Suc i)
      with j a have "\<exists>maze r'. nth_attempt w h d r1 i = Some (Inr (maze, [], r'))"
        by (simp add: empty_until_def)
      with assms Suc show ?thesis by simp
    qed
  qed
qed

lemma attempts_loop_result:
  assumes "0 < w" "0 < h" "0 < d"
  shows "\<exists>out. attempts_loop w h d [Suc k..<Suc (k + n)] r = Some (Inr out) \<and>
           (case out of
              Solved maze path a \<Rightarrow>
                k < a \<and> a \<le> k + n \<and> path \<noteq> [] \<and>
                (\<exists>r'. nth_attempt w h d r (a - Suc k) = Some (Inr (maze, path, r'))) \<and>
                empty_until w h d r (a - Suc k)
            | Exhausted \<Rightarrow> empty_until w h d r n)"
proof (induction n arbitrary: k r)
  case 0
  show ?case by (simp add: empty_until_0)
next
  case (Suc n)
  have l: "[Suc k..<Suc (k + Suc n)] = Suc k # [Suc (Suc k)..<Suc (Suc k + n)]"
    by (simp add: upt_conv_Cons)
  from attempt_body_returns [OF assms] obtain maze path r1 where
    b: "attempt_body w h d r = Some (Inr (maze, path, r1))" by blast
  show ?case
  proof (cases "path = []")
    case False
    with b l show ?thesis by (simp add: empty_until_0)
  next
    case True
    from Suc.IH [of "Suc k" r1] obtain out where
      out: "attempts_loop w h d [Suc (Suc k)..<Suc (Suc k + n)] r1 = Some (Inr out)"
      and c: "case out of
              Solved maze path a \<Rightarrow>
                Suc k < a \<and> a \<le> Suc k + n \<and> path \<noteq> [] \<and>
                (\<exists>r'. nth_attempt w h d r1 (a - Suc (Suc k)) = Some (Inr (maze, path, r'))) \<and>
                empty_until w h d r1 (a - Suc (Suc k))
            | Exhausted \<Rightarrow> empty_until w h d r1 n"
      by blast
    from b True have b': "attempt_body w h d r = Some (Inr (maze, [], r1))" by simp
    from b' l out have res: "attempts_loop w h d [Suc k..<Suc (k + Suc n)] r = Some (Inr out)"
      by simp
    show ?thesis
    proof (cases out)
      case Exhausted
      with c res empty_until_Suc [OF b', of n] show ?thesis by simp
    next
      case (Solved mz p a)
      with c have a: "Suc k < a" "a \<le> Suc k + n" "p \<noteq> []"
        and nth: "\<exists>r'. nth_attempt w h d r1 (a - Suc (Suc k)) = Some (Inr (mz, p, r'))"
        and emp: "empty_until w h d r1 (a - Suc (Suc k))"
        by simp_all
      from a(1) have idx: "a - Suc k = Suc (a - Suc (Suc k))" by simp
      from nth b' idx have "\<exists>r'. nth_attempt w h d r (a - Suc k) = Some (Inr (mz, p, r'))"
        by simp
      moreover from emp empty_until_Suc [OF b', of "a - Suc (Suc k)"] idx
      have "empty_until w h d r (a - Suc k)" by simp
      ultimately show ?thesis using Solved res a by simp
    qed
  qed
qed

lemma supervisor_result:
  assumes "0 < w" "0 < h" "0 < d"
  shows "\<exists>out. supervisor n w h d r = Some (Inr out) \<and>
           (case out of
              Solved maze path a \<Rightarrow>
                1 \<le> a \<and> a \<le> n \<and> path \<noteq> [] \<and>
                (\<exists>r'. nth_attempt w h d r (a - 1) = Some (Inr (maze, path, r'))) \<and>
                empty_until w h d r (a - 1)
            | Exhausted \<Rightarrow> empty_until w h d r n)"
proof -
  have "[1..<n + 1] = [Suc 0..<Suc (0 + n)]" by simp
  then have "supervisor n w h d r = attempts_loop w h d [Suc 0..<Suc (0 + n)] r"
    unfolding supervisor_def by (rule arg_cong)
  moreover from attempts_loop_result [OF assms, of 0 n r] obtain out where
    o: "attempts_loop w h d [Suc 0..<Suc (0 + n)] r = Some (Inr out)"
    and c: "case out of
              Solved maze path a \<Rightarrow>
                0 < a \<and> a \<le> 0 + n \<and> path \<noteq> [] \<and>
                (\<exists>r'. nth_attempt w h d r (a - Suc 0) = Some (Inr (maze, path, r'))) \<and>
                empty_until w h d r (a - Suc 0)
            | Exhausted \<Rightarrow> empty_until w h d r n"
    by blast
  ultimately have res: "supervisor n w h d r = Some (Inr out)" by (simp only:)
  show ?thesis
  proof (cases out)
    case Exhausted
    with c res show ?thesis by simp
  next
    case (Solved mz p a)
    with c have "1 \<le> a" "a \<le> n" "p \<noteq> []"
      "\<exists>r'. nth_attempt w h d r (a - 1) = Some (Inr (mz, p, r'))"
      "empty_until w h d r (a - 1)" by simp_all
    with res Solved show ?thesis by simp
  qed
qed

lemma attempt_body_cube:
  "attempt_body 2 2 2 (\<lambda>_. 0) =
     Some (Inr (\<lparr>width = 2, height = 2, depth = 2,
                  grid = (\<lambda>_. 1)((0, 0, 0) := 0, (1, 1, 1) := 0),
                  start = (0, 0, 0), end_cell = (1, 1, 1)\<rparr>, [], \<lambda>_. 0))"
  by (simp add: attempt_body_def Maze3D_init_def generate_eval solve_eval)

lemma attempt_body_corridor:
  "attempt_body 3 1 1 (\<lambda>_. 0) =
     Some (Inr (\<lparr>width = 3, height = 1, depth = 1,
                  grid = (\<lambda>_. 1)((0, 0, 1) := 0, (0, 0, 0) := 0, (0, 0, 2) := 0),
                  start = (0, 0, 0), end_cell = (0, 0, 2)\<rparr>,
                [(0, 0, 0), (0, 0, 1), (0, 0, 2)], \<lambda>_. 0))"
  by (simp add: attempt_body_def Maze3D_init_def generate_eval solve_eval)

text \<open>
  What the claim says of an outcome for a budget of \<open>n\<close> attempts: a solved outcome is
  the field and the non-empty path of some attempt \<open>a \<le> n\<close>, every attempt before it
  having found no path; the exhausted outcome is the one of \<open>n\<close> attempts that all found
  no path.
\<close>

definition attempts_outcome :: "nat \<Rightarrow> int \<Rightarrow> int \<Rightarrow> int \<Rightarrow> rng \<Rightarrow> outcome \<Rightarrow> bool" where
  "attempts_outcome n w h d r out \<longleftrightarrow>
     (\<forall>maze path a. out = Solved maze path a \<longrightarrow>
        1 \<le> a \<and> a \<le> n \<and> path \<noteq> [] \<and>
        (\<exists>r'. nth_attempt w h d r (a - 1) = Some (Inr (maze, path, r'))) \<and>
        empty_until w h d r (a - 1)) \<and>
     (out = Exhausted \<longleftrightarrow> empty_until w h d r n)"

lemma supervisor_outcome:
  assumes "0 < w" "0 < h" "0 < d"
  shows "\<exists>out. supervisor n w h d r = Some (Inr out) \<and> attempts_outcome n w h d r out"
proof -
  from supervisor_result [OF assms, of n r] obtain out where
    res: "supervisor n w h d r = Some (Inr out)"
    and c: "case out of
              Solved maze path a \<Rightarrow>
                1 \<le> a \<and> a \<le> n \<and> path \<noteq> [] \<and>
                (\<exists>r'. nth_attempt w h d r (a - 1) = Some (Inr (maze, path, r'))) \<and>
                empty_until w h d r (a - 1)
            | Exhausted \<Rightarrow> empty_until w h d r n"
    by blast
  have "out = Exhausted" if e: "empty_until w h d r n"
  proof (cases out)
    case Exhausted
    then show ?thesis .
  next
    case (Solved mz p a)
    with c obtain r' where a: "1 \<le> a" "a \<le> n" "p \<noteq> []"
      and nth: "nth_attempt w h d r (a - 1) = Some (Inr (mz, p, r'))" by auto
    from a have "a - 1 < n" by simp
    with e obtain mz' r'' where "nth_attempt w h d r (a - 1) = Some (Inr (mz', [], r''))"
      unfolding empty_until_def by blast
    with nth a(3) show ?thesis by simp
  qed
  with c have "attempts_outcome n w h d r out"
    unfolding attempts_outcome_def by (cases out) auto
  with res show ?thesis by blast
qed

section \<open>The retry loop is bounded\<close>

text \<open>
  Claim C6. For positive dimensions, any budget and any sequence of random choices, the
  retry loop returns an outcome (it neither runs on nor raises); a solved outcome comes
  from an attempt numbered at most the budget, whose path is not empty, and is that
  attempt's field and path, all earlier attempts having returned the empty path; and the
  outcome is the exhausted one exactly when all attempts of the budget returned the
  empty path. \<open>main\<close> runs the loop with a budget of 10 on fields of 9 by 9 by 5.
\<close>

theorem supervisor_bounded:
  assumes "0 < w" "0 < h" "0 < d"
  shows "(\<exists>out. supervisor n w h d r = Some (Inr out) \<and> attempts_outcome n w h d r out) \<and>
         (\<exists>out. main_loop r = Some (Inr out) \<and> attempts_outcome 10 9 9 5 r out)"
proof -
  have "\<exists>out. supervisor 10 9 9 5 r = Some (Inr out) \<and> attempts_outcome 10 9 9 5 r out"
    by (rule supervisor_outcome) simp_all
  with supervisor_outcome [OF assms] show ?thesis by (simp add: main_loop_def)
qed

theorem supervisor_bounded_witness:
  "(0 :: int) < 2 \<and> empty_until 2 2 2 (\<lambda>_. 0) 3 \<and>
   supervisor 3 2 2 2 (\<lambda>_. 0) = Some (Inr Exhausted) \<and>
   (0 :: int) < 3 \<and> (0 :: int) < 1 \<and>
   (\<exists>maze. supervisor 10 3 1 1 (\<lambda>_. 0) =
      Some (Inr (Solved maze [(0, 0, 0), (0, 0, 1), (0, 0, 2)] 1)) \<and>
      attempts_outcome 10 3 1 1 (\<lambda>_. 0) (Solved maze [(0, 0, 0), (0, 0, 1), (0, 0, 2)] 1))"
proof -
  have e: "empty_until 2 2 2 (\<lambda>_. 0) 3"
    unfolding empty_until_def
  proof (intro allI impI)
    fix j :: nat assume "j < 3"
    then consider "j = 0" | "j = Suc 0" | "j = Suc (Suc 0)" by linarith
    then show "\<exists>maze r'. nth_attempt 2 2 2 (\<lambda>_. 0) j = Some (Inr (maze, [], r'))"
      by cases (simp_all add: attempt_body_cube)
  qed
  from supervisor_bounded [of 2 2 2 3 "\<lambda>_. 0"] e
  have x: "supervisor 3 2 2 2 (\<lambda>_. 0) = Some (Inr Exhausted)"
    by (auto simp: attempts_outcome_def)
  have "[1..<10 + 1] = 1 # [2..<11]" by (simp add: upt_conv_Cons)
  then have s: "supervisor 10 3 1 1 (\<lambda>_. 0) =
      Some (Inr (Solved \<lparr>width = 3, height = 1, depth = 1,
                  grid = (\<lambda>_. 1)((0, 0, 1) := 0, (0, 0, 0) := 0, (0, 0, 2) := 0),
                  start = (0, 0, 0), end_cell = (0, 0, 2)\<rparr> [(0, 0, 0), (0, 0, 1), (0, 0, 2)] 1))"
    by (simp add: supervisor_def attempt_body_corridor)
  from supervisor_bounded [of 3 1 1 10 "\<lambda>_. 0"] s
  have "attempts_outcome 10 3 1 1 (\<lambda>_. 0)
      (Solved \<lparr>width = 3, height = 1, depth = 1,
                  grid = (\<lambda>_. 1)((0, 0, 1) := 0, (0, 0, 0) := 0, (0, 0, 2) := 0),
                  start = (0, 0, 0), end_cell = (0, 0, 2)\<rparr> [(0, 0, 0), (0, 0, 1), (0, 0, 2)] 1)"
    by auto
  with e x s show ?thesis by simp
qed

section \<open>The lattice and the cells the loop pushes\<close>

text \<open>
  \<open>shift2 c d\<close> is the cell two steps from \<open>c\<close> in direction \<open>d\<close>. \<open>lattice_reach m\<close> is
  the set of cells that steps of length 2 inside the dimensions reach from start.
  \<open>carve_pushes s\<close> lists, in order, the cells that the loop started in \<open>s\<close> appends to
  the stack, which are the cells it adds to \<open>visited_cells\<close>.
\<close>

definition shift2 :: "coord \<Rightarrow> coord \<Rightarrow> coord" where
  "shift2 c d = (fst c + fst d * 2, fst (snd c) + fst (snd d) * 2, snd (snd c) + snd (snd d) * 2)"

inductive_set lattice_reach :: "Maze3D \<Rightarrow> coord set" for m :: Maze3D where
  lr_start: "start m \<in> lattice_reach m"
| lr_step: "c \<in> lattice_reach m \<Longrightarrow> d \<in> set directions \<Longrightarrow> in_bounds m (shift2 c d) \<Longrightarrow>
     shift2 c d \<in> lattice_reach m"

definition pushed :: "carve_state \<Rightarrow> carve_state \<Rightarrow> coord list" where
  "pushed s s' = (if length (stack s) < length (stack s') then [last (stack s')] else [])"

function carve_pushes :: "carve_state \<Rightarrow> coord list" where
  "carve_pushes s =
     (if stack s = [] then []
      else case carve_step s of Inl e \<Rightarrow> [] | Inr s' \<Rightarrow> pushed s s' @ carve_pushes s')"
  by pat_completeness auto
termination
proof (relation "inv_image (less_than <*lex*> less_than)
           (\<lambda>s. (card (box (c_self s) - visited_cells s), length (stack s)))")
  show "wf (inv_image (less_than <*lex*> less_than)
           (\<lambda>s. (card (box (c_self s) - visited_cells s), length (stack s))))"
    by (intro wf_inv_image wf_lex_prod wf_less_than)
next
  fix s s'
  assume "carve_step s = Inr s'"
  then show "(s', s) \<in> inv_image (less_than <*lex*> less_than)
           (\<lambda>s. (card (box (c_self s) - visited_cells s), length (stack s)))"
    by (rule carve_step_decreases)
qed

declare carve_pushes.simps [simp del]

lemma lattice_reach_only_opens:
  assumes "only_opens m m'"
  shows "lattice_reach m' = lattice_reach m"
proof -
  from assms have st: "start m' = start m" by (simp add: only_opens_def)
  note ib = only_opens_in_bounds [OF assms]
  have "c \<in> lattice_reach m" if "c \<in> lattice_reach m'" for c
    using that
  proof (induction rule: lattice_reach.induct)
    case lr_start
    show ?case unfolding st by (rule lattice_reach.lr_start)
  next
    case (lr_step c d)
    from lr_step.IH lr_step.hyps(2) lr_step.hyps(3) [unfolded ib]
    show ?case by (rule lattice_reach.lr_step)
  qed
  moreover have "c \<in> lattice_reach m'" if "c \<in> lattice_reach m" for c
    using that
  proof (induction rule: lattice_reach.induct)
    case lr_start
    show ?case using lattice_reach.lr_start [of m'] st by simp
  next
    case (lr_step c d)
    from lr_step.IH lr_step.hyps(2) lr_step.hyps(3) [folded ib]
    show ?case by (rule lattice_reach.lr_step)
  qed
  ultimately show ?thesis by blast
qed

definition closed_cell :: "carve_state \<Rightarrow> coord \<Rightarrow> bool" where
  "closed_cell s c \<longleftrightarrow>
     (\<forall>d \<in> set directions. in_bounds (c_self s) (shift2 c d) \<longrightarrow> shift2 c d \<in> visited_cells s)"

definition carve_inv :: "carve_state \<Rightarrow> bool" where
  "carve_inv s \<longleftrightarrow>
     carve_ok s \<and> start (c_self s) \<in> visited_cells s \<and>
     visited_cells s \<subseteq> lattice_reach (c_self s) \<and>
     (\<forall>c \<in> visited_cells s. c \<in> set (stack s) \<or> closed_cell s c)"

lemma neighbors_of_empty:
  assumes "neighbors_of m vis c = []"
  shows "\<forall>d \<in> set directions. in_bounds m (shift2 c d) \<longrightarrow> shift2 c d \<in> vis"
proof (intro ballI impI)
  fix d assume d: "d \<in> set directions" and ib: "in_bounds m (shift2 c d)"
  obtain z y x where c: "c = (z, y, x)" by (cases c) auto
  obtain dz dy dx where dd: "d = (dz, dy, dx)" by (cases d) auto
  show "shift2 c d \<in> vis"
  proof (rule ccontr)
    assume "shift2 c d \<notin> vis"
    with d ib c dd have "(z + dz * 2, y + dy * 2, x + dx * 2, dz, dy, dx) \<in> set (neighbors_of m vis c)"
      unfolding neighbors_of_def shift2_def by (simp del: in_bounds.simps) force
    with assms show False by simp
  qed
qed

text \<open>One pass: a pop, or the push of a lattice cell that was not visited.\<close>

lemma carve_step_inv:
  assumes inv: "carve_inv s" and ne: "stack s \<noteq> []"
  shows "\<exists>s'. carve_step s = Inr s' \<and> carve_inv s' \<and>
           ((pushed s s' = [] \<and> visited_cells s' = visited_cells s) \<or>
            (\<exists>n. pushed s s' = [n] \<and> n \<notin> visited_cells s \<and>
                 visited_cells s' = insert n (visited_cells s)))"
proof -
  from inv have ok: "carve_ok s" by (simp add: carve_inv_def)
  from carve_step_ok [OF ok ne] obtain s' where st: "carve_step s = Inr s'" and ok': "carve_ok s'"
    by blast
  note oo = carve_step_only_opens [OF st]
  then have start': "start (c_self s') = start (c_self s)" by (simp add: only_opens_def)
  note lr = lattice_reach_only_opens [OF oo]
  note ib = only_opens_in_bounds [OF oo]
  from carve_step_cases [OF st] show ?thesis
  proof
    assume pop: "s' = s\<lparr>stack := butlast (stack s)\<rparr> \<and> stack s \<noteq> [] \<and>
            neighbors_of (c_self s) (visited_cells s) (last (stack s)) = []"
    then have s': "s' = s\<lparr>stack := butlast (stack s)\<rparr>"
      and emp: "neighbors_of (c_self s) (visited_cells s) (last (stack s)) = []" by blast+
    from neighbors_of_empty [OF emp] have cl: "closed_cell s (last (stack s))"
      by (simp add: closed_cell_def)
    have "c \<in> set (stack s') \<or> closed_cell s' c" if c: "c \<in> visited_cells s'" for c
    proof (cases "c = last (stack s)")
      case True
      with cl s' show ?thesis by (simp add: closed_cell_def)
    next
      case False
      from c s' have "c \<in> visited_cells s" by simp
      with inv have "c \<in> set (stack s) \<or> closed_cell s c" by (simp add: carve_inv_def)
      then show ?thesis
      proof
        assume "c \<in> set (stack s)"
        with ne have "c \<in> set (butlast (stack s) @ [last (stack s)])" by simp
        with False s' show ?thesis by simp
      next
        assume "closed_cell s c"
        with s' show ?thesis by (simp add: closed_cell_def)
      qed
    qed
    with inv ok' s' have "carve_inv s'" by (simp add: carve_inv_def)
    moreover from s' have "pushed s s' = []" by (simp add: pushed_def)
    ultimately show ?thesis using st s' by simp
  next
    assume "\<exists>z y x nz ny nx dz dy dx m1 m2.
            stack s \<noteq> [] \<and> last (stack s) = (z, y, x) \<and>
            (nz, ny, nx, dz, dy, dx) \<in> set (neighbors_of (c_self s) (visited_cells s) (z, y, x)) \<and>
            grid_set (c_self s) (z + dz, y + dy, x + dx) 0 = Inr m1 \<and>
            grid_set m1 (nz, ny, nx) 0 = Inr m2 \<and>
            s' = s\<lparr>c_self := m2, visited_cells := insert (nz, ny, nx) (visited_cells s),
                   stack := stack s @ [(nz, ny, nx)], c_rng := rng_tail (c_rng s)\<rparr>"
    then obtain z y x nz ny nx dz dy dx m2 where
      top: "last (stack s) = (z, y, x)"
      and mem: "(nz, ny, nx, dz, dy, dx) \<in> set (neighbors_of (c_self s) (visited_cells s) (z, y, x))"
      and s': "s' = s\<lparr>c_self := m2, visited_cells := insert (nz, ny, nx) (visited_cells s),
                   stack := stack s @ [(nz, ny, nx)], c_rng := rng_tail (c_rng s)\<rparr>"
      by blast
    let ?n = "(nz, ny, nx)"
    from neighbors_of_mem [OF mem]
    have dir: "(dz, dy, dx) \<in> set directions"
      and neq: "nz = z + dz * 2" "ny = y + dy * 2" "nx = x + dx * 2"
      and nb: "in_bounds (c_self s) ?n" and nv: "?n \<notin> visited_cells s"
      by blast+
    from neq have n: "?n = shift2 (z, y, x) (dz, dy, dx)" by (simp add: shift2_def)
    from ne top have "(z, y, x) \<in> set (stack s)" using last_in_set by metis
    with inv have "(z, y, x) \<in> lattice_reach (c_self s)"
      by (auto simp: carve_inv_def carve_ok_def)
    from lattice_reach.lr_step [OF this dir nb [unfolded n]] n
    have nl: "?n \<in> lattice_reach (c_self s)" by simp
    have "c \<in> set (stack s') \<or> closed_cell s' c" if c: "c \<in> visited_cells s'" for c
    proof (cases "c = ?n")
      case True
      with s' show ?thesis by simp
    next
      case False
      with c s' have "c \<in> visited_cells s" by simp
      with inv have "c \<in> set (stack s) \<or> closed_cell s c" by (simp add: carve_inv_def)
      then show ?thesis
      proof
        assume "c \<in> set (stack s)"
        with s' show ?thesis by simp
      next
        assume "closed_cell s c"
        then have "closed_cell s' c"
          unfolding closed_cell_def ib using s' by auto
        then show ?thesis ..
      qed
    qed
    moreover from inv have "start (c_self s) \<in> visited_cells s"
      "visited_cells s \<subseteq> lattice_reach (c_self s)" by (simp_all add: carve_inv_def)
    ultimately have "carve_inv s'"
      using ok' start' lr nl s' unfolding carve_inv_def by auto
    moreover from s' have "pushed s s' = [?n]" by (simp add: pushed_def)
    ultimately show ?thesis using st nv s' by auto
  qed
qed

lemma carve_run:
  "carve_inv s \<Longrightarrow>
     \<exists>s'. carve s = Inr s' \<and> stack s' = [] \<and> carve_inv s' \<and>
          only_opens (c_self s) (c_self s') \<and>
          distinct (carve_pushes s) \<and> set (carve_pushes s) \<inter> visited_cells s = {} \<and>
          visited_cells s' = visited_cells s \<union> set (carve_pushes s)"
proof (induction s rule: carve.induct)
  case (1 s)
  show ?case
  proof (cases "stack s = []")
    case True
    with "1.prems" show ?thesis
      by (simp add: carve.simps [of s] carve_pushes.simps [of s] only_opens_refl)
  next
    case False
    from carve_step_inv [OF "1.prems" False] obtain s1 where
      s1: "carve_step s = Inr s1" and inv1: "carve_inv s1"
      and p: "(pushed s s1 = [] \<and> visited_cells s1 = visited_cells s) \<or>
            (\<exists>n. pushed s s1 = [n] \<and> n \<notin> visited_cells s \<and>
                 visited_cells s1 = insert n (visited_cells s))"
      by blast
    from "1.IH" [OF False s1 inv1] obtain s' where
      r: "carve s1 = Inr s'" "stack s' = []" "carve_inv s'"
      and oo: "only_opens (c_self s1) (c_self s')"
      and d: "distinct (carve_pushes s1)" "set (carve_pushes s1) \<inter> visited_cells s1 = {}"
      and v: "visited_cells s' = visited_cells s1 \<union> set (carve_pushes s1)"
      by blast
    from False s1 r(1) have c: "carve s = Inr s'" by (simp add: carve.simps [of s])
    from False s1 have ps: "carve_pushes s = pushed s s1 @ carve_pushes s1"
      by (simp add: carve_pushes.simps [of s])
    from carve_step_only_opens [OF s1] oo have oo': "only_opens (c_self s) (c_self s')"
      by (rule only_opens_trans)
    from p show ?thesis
    proof
      assume "pushed s s1 = [] \<and> visited_cells s1 = visited_cells s"
      with c r oo' d v ps show ?thesis by simp
    next
      assume "\<exists>n. pushed s s1 = [n] \<and> n \<notin> visited_cells s \<and>
                 visited_cells s1 = insert n (visited_cells s)"
      then obtain n where n: "pushed s s1 = [n]" "n \<notin> visited_cells s"
        "visited_cells s1 = insert n (visited_cells s)" by blast
      from d(2) n(3) have "n \<notin> set (carve_pushes s1)" by auto
      with c r oo' d v ps n show ?thesis by auto
    qed
  qed
qed

lemma closed_contains_lattice:
  assumes "start m \<in> V"
    and "\<forall>c \<in> V. \<forall>d \<in> set directions. in_bounds m (shift2 c d) \<longrightarrow> shift2 c d \<in> V"
  shows "lattice_reach m \<subseteq> V"
proof
  fix c assume "c \<in> lattice_reach m"
  then show "c \<in> V"
    by (induction rule: lattice_reach.induct) (use assms in auto)
qed

lemma carve_init_inv:
  assumes "GridField m"
  shows "\<exists>s0. carve_init m r = Inr s0 \<and> carve_inv s0 \<and> only_opens m (c_self s0) \<and>
           visited_cells s0 = {start m} \<and> stack s0 = [start m]"
proof -
  from GridField_bounds(1) [OF assms] obtain m0 where m0: "grid_set m (start m) 0 = Inr m0"
    using grid_set_in_bounds by blast
  let ?s0 = "\<lparr>c_self = m0, stack = [start m], visited_cells = {start m}, c_rng = r\<rparr>"
  note oo = grid_set_only_opens [OF m0]
  then have st: "start m0 = start m" by (simp add: only_opens_def)
  from m0 have "box m0 = box m" by (rule grid_set_box)
  with GridField_bounds(1) [OF assms] have "carve_ok ?s0"
    by (simp add: carve_ok_def in_bounds_box)
  moreover have "start m \<in> lattice_reach m0"
    using lattice_reach.lr_start [of m0] st by simp
  ultimately have "carve_inv ?s0" using st by (simp add: carve_inv_def)
  with m0 oo show ?thesis by (simp add: carve_init_def)
qed

section \<open>The carving loop ends, having visited each lattice cell once\<close>

text \<open>
  Claim C4. For every field with positive dimensions and every sequence of random
  choices, the carving loop returns with an empty stack; the cells it added to
  \<open>visited_cells\<close>, start first, are pairwise different, so none was added twice; and
  they are exactly the cells that steps of length 2 along the axes reach from start
  inside the dimensions.
\<close>

theorem carve_loop_visits_once:
  assumes "GridField m"
  shows "\<exists>s0 s'. carve_init m r = Inr s0 \<and> carve s0 = Inr s' \<and> carve_phase m r = Inr s' \<and>
           stack s' = [] \<and>
           distinct (start m # carve_pushes s0) \<and>
           set (start m # carve_pushes s0) = lattice_reach m \<and>
           visited_cells s' = lattice_reach m"
proof -
  from carve_init_inv [OF assms] obtain s0 where
    s0: "carve_init m r = Inr s0" and inv0: "carve_inv s0" and oo0: "only_opens m (c_self s0)"
    and v0: "visited_cells s0 = {start m}" by blast
  from carve_run [OF inv0] obtain s' where
    c: "carve s0 = Inr s'" and e: "stack s' = []" and inv': "carve_inv s'"
    and oo: "only_opens (c_self s0) (c_self s')"
    and d: "distinct (carve_pushes s0)" "set (carve_pushes s0) \<inter> visited_cells s0 = {}"
    and v: "visited_cells s' = visited_cells s0 \<union> set (carve_pushes s0)"
    by blast
  from oo0 oo have oo': "only_opens m (c_self s')" by (rule only_opens_trans)
  note lr = lattice_reach_only_opens [OF oo']
  from oo' have st: "start (c_self s') = start m" by (simp add: only_opens_def)
  from inv' e have cl: "\<forall>c \<in> visited_cells s'. closed_cell s' c" by (simp add: carve_inv_def)
  from inv' have sub: "visited_cells s' \<subseteq> lattice_reach m"
    and sv: "start m \<in> visited_cells s'" using lr st by (simp_all add: carve_inv_def)
  from cl have "\<forall>c \<in> visited_cells s'. \<forall>d \<in> set directions.
      in_bounds m (shift2 c d) \<longrightarrow> shift2 c d \<in> visited_cells s'"
    unfolding closed_cell_def only_opens_in_bounds [OF oo'] .
  from closed_contains_lattice [OF sv this] sub
  have eq: "visited_cells s' = lattice_reach m" by blast
  from s0 c have "carve_phase m r = Inr s'" by (simp add: carve_phase_def)
  with s0 c e d v v0 eq show ?thesis by auto
qed

theorem carve_loop_visits_once_witness:
  "GridField fresh_corridor \<and>
   (\<exists>s0 s'. carve_init fresh_corridor (\<lambda>_. 0) = Inr s0 \<and> carve s0 = Inr s' \<and>
      stack s' = [] \<and> carve_pushes s0 = [(0, 0, 2)] \<and>
      distinct (start fresh_corridor # carve_pushes s0) \<and>
      visited_cells s' = {(0, 0, 0), (0, 0, 2)} \<and>
      lattice_reach fresh_corridor = {(0, 0, 0), (0, 0, 2)})"
proof -
  have g: "GridField fresh_corridor" by (rule GridField_fresh_corridor)
  let ?s0 = "\<lparr>c_self = fresh_corridor\<lparr>grid := (\<lambda>_. 1)((0, 0, 0) := 0)\<rparr>, stack = [(0, 0, 0)],
              visited_cells = {(0, 0, 0)}, c_rng = \<lambda>_. 0\<rparr>"
  have i: "carve_init fresh_corridor (\<lambda>_. 0) = Inr ?s0"
    by (simp add: carve_init_def grid_set_def fresh_corridor_def)
  have p: "carve_pushes ?s0 = [(0, 0, 2)]"
    by (simp add: carve_pushes.simps pushed_def generate_eval fresh_corridor_def)
  from carve_loop_visits_once [OF g, of "\<lambda>_. 0"] i p
  show ?thesis using g by (auto simp: fresh_corridor_def)
qed

section \<open>Trees of cells\<close>

text \<open>
  A simple path in a set of cells \<open>S\<close> from \<open>a\<close> to \<open>b\<close> is a list of pairwise different
  cells of \<open>S\<close>, each adjacent to the one before. \<open>S\<close> is a tree when any two of its cells
  are joined by exactly one simple path.
\<close>

definition simple_path :: "coord set \<Rightarrow> coord \<Rightarrow> coord \<Rightarrow> coord list \<Rightarrow> bool" where
  "simple_path S a b xs \<longleftrightarrow>
     xs \<noteq> [] \<and> hd xs = a \<and> last xs = b \<and> distinct xs \<and> set xs \<subseteq> S \<and>
     successively adjacent xs"

definition is_tree :: "coord set \<Rightarrow> bool" where
  "is_tree S \<longleftrightarrow> (\<forall>a \<in> S. \<forall>b \<in> S. \<exists>!xs. simple_path S a b xs)"

definition open_cells :: "Maze3D \<Rightarrow> coord set" where
  "open_cells m = {c. is_open m c}"

lemma adjacent_sym: "adjacent a b \<longleftrightarrow> adjacent b a"
  by (cases a; cases b) auto

lemma simple_path_mono: "simple_path S a b xs \<Longrightarrow> S \<subseteq> T \<Longrightarrow> simple_path T a b xs"
  by (auto simp: simple_path_def)

lemma simple_path_restrict:
  "simple_path (insert v S) a b xs \<Longrightarrow> v \<notin> set xs \<Longrightarrow> simple_path S a b xs"
  by (auto simp: simple_path_def)

lemma successively_adjacent_rev:
  "successively adjacent (rev xs) \<longleftrightarrow> successively adjacent xs"
proof -
  have "successively (\<lambda>x y. adjacent y x) xs \<longleftrightarrow> successively adjacent xs"
    by (rule successively_cong) (simp_all add: adjacent_sym)
  then show ?thesis by simp
qed

lemma simple_path_rev: "simple_path S a b xs \<Longrightarrow> simple_path S b a (rev xs)"
  by (simp add: simple_path_def hd_rev last_rev successively_adjacent_rev del: successively_rev)

lemma simple_path_loop:
  assumes "simple_path S v v xs"
  shows "xs = [v]"
proof -
  from assms obtain ys where xs: "xs = v # ys" by (cases xs) (auto simp: simple_path_def)
  show ?thesis
  proof (cases "ys = []")
    case True
    with xs show ?thesis by simp
  next
    case False
    with assms xs have "last ys = v" "v \<notin> set ys" by (auto simp: simple_path_def)
    moreover from False have "last ys \<in> set ys" by simp
    ultimately show ?thesis by simp
  qed
qed

lemma simple_path_single: "v \<in> S \<Longrightarrow> simple_path S v v [v]"
  by (simp add: simple_path_def)

text \<open>A leaf \<open>v\<close> that hangs on \<open>u\<close> lies on no simple path between two other cells.\<close>

lemma leaf_not_inside:
  assumes leaf: "\<forall>x \<in> S. adjacent v x \<longrightarrow> x = u" and v: "v \<notin> S"
    and p: "simple_path (insert v S) a b xs" and a: "a \<noteq> v" and b: "b \<noteq> v"
  shows "v \<notin> set xs"
proof
  assume "v \<in> set xs"
  then obtain ps qs where xs: "xs = ps @ v # qs" by (auto dest: split_list)
  from p have h: "hd xs = a" and l: "last xs = b" and d0: "distinct xs"
    and sub0: "set xs \<subseteq> insert v S" and suc0: "successively adjacent xs"
    unfolding simple_path_def by blast+
  have ps: "ps \<noteq> []"
  proof
    assume "ps = []"
    with xs h have "a = v" by simp
    with a show False by simp
  qed
  have qs: "qs \<noteq> []"
  proof
    assume "qs = []"
    with xs l have "b = v" by simp
    with b show False by simp
  qed
  from d0 have d: "distinct (ps @ v # qs)" unfolding xs .
  from sub0 have sub: "set (ps @ v # qs) \<subseteq> insert v S" unfolding xs .
  from suc0 have suc: "successively adjacent (ps @ v # qs)" unfolding xs .
  from suc ps have 1: "adjacent (last ps) v"
    by (simp add: successively_append_iff)
  from suc have "successively adjacent (v # qs)"
    by (simp add: successively_append_iff)
  with qs have 2: "adjacent v (hd qs)"
    by (simp add: successively_Cons)
  from d have nv: "v \<notin> set ps" "v \<notin> set qs" and dj: "set ps \<inter> set qs = {}" by auto
  note lps = last_in_set [OF ps] and hqs = hd_in_set [OF qs]
  from sub have "set ps \<subseteq> insert v S" "set qs \<subseteq> insert v S" by auto
  with nv lps hqs have lp: "last ps \<in> S" and hq: "hd qs \<in> S" by blast+
  from 1 have "adjacent v (last ps)" by (simp only: adjacent_sym [of v "last ps"])
  with leaf lp have e1: "last ps = u" by blast
  from leaf hq 2 have e2: "hd qs = u" by blast
  from d have "\<forall>x \<in> set ps. x \<notin> set qs" by auto
  from this lps have nq: "last ps \<notin> set qs" by (rule bspec)
  have ne: "last ps \<noteq> hd qs"
  proof
    assume "last ps = hd qs"
    with hqs have "last ps \<in> set qs" by (simp only:)
    with nq show False by (rule notE)
  qed
  from e1 e2 [symmetric] have "last ps = hd qs" by (rule trans)
  with ne show False by (rule notE)
qed

lemma leaf_path_from:
  assumes leaf: "\<forall>x \<in> S. adjacent v x \<longrightarrow> x = u" and v: "v \<notin> S"
    and p: "simple_path (insert v S) v b xs" and b: "b \<noteq> v"
  shows "\<exists>ys. xs = v # ys \<and> simple_path S u b ys"
proof -
  from p obtain ys where xs: "xs = v # ys" by (cases xs) (auto simp: simple_path_def)
  from p xs b have ys: "ys \<noteq> []" by (auto simp: simple_path_def)
  from p xs have nv: "v \<notin> set ys" and d: "distinct ys" and sub: "set ys \<subseteq> insert v S"
    and suc: "successively adjacent (v # ys)" and l: "last (v # ys) = b"
    by (simp_all add: simple_path_def)
  from sub nv have sub': "set ys \<subseteq> S" by auto
  from suc ys have adj: "adjacent v (hd ys)" and suc': "successively adjacent ys"
    by (cases ys; simp)+
  from sub' ys have "hd ys \<in> S" using hd_in_set [OF ys] by auto
  with leaf adj have "hd ys = u" by simp
  with ys d sub' suc' l have "simple_path S u b ys" by (simp add: simple_path_def)
  with xs show ?thesis by simp
qed

lemma leaf_path_to:
  assumes u: "adjacent v u" and v: "v \<notin> S" and p: "simple_path S u b ys"
  shows "simple_path (insert v S) v b (v # ys)"
proof -
  from p have "ys \<noteq> []" "hd ys = u" by (simp_all add: simple_path_def)
  with u have "successively adjacent (v # ys)" if "successively adjacent ys"
    using that by (cases ys) simp_all
  with p v show ?thesis by (auto simp: simple_path_def)
qed

lemma tree_add_leaf:
  assumes tree: "is_tree S" and v: "v \<notin> S" and u: "u \<in> S" and adj: "adjacent v u"
    and leaf: "\<forall>x \<in> S. adjacent v x \<longrightarrow> x = u"
  shows "is_tree (insert v S)"
proof -
  let ?T = "insert v S"
  have from_v: "\<exists>!xs. simple_path ?T v b xs" if b: "b \<in> S" for b
  proof -
    from b v have bv: "b \<noteq> v" by auto
    from tree u b obtain ys where ys: "simple_path S u b ys"
      and uniq: "\<And>zs. simple_path S u b zs \<Longrightarrow> zs = ys"
      unfolding is_tree_def by blast
    show ?thesis
    proof (rule ex1I)
      show "simple_path ?T v b (v # ys)" using adj v ys by (rule leaf_path_to)
    next
      fix xs assume "simple_path ?T v b xs"
      from leaf_path_from [OF leaf v this bv] obtain zs where
        "xs = v # zs" "simple_path S u b zs" by blast
      with uniq show "xs = v # ys" by simp
    qed
  qed
  have to_v: "\<exists>!xs. simple_path ?T a v xs" if a: "a \<in> S" for a
  proof -
    from from_v [OF a] obtain ys where ys: "simple_path ?T v a ys"
      and uniq: "\<And>zs. simple_path ?T v a zs \<Longrightarrow> zs = ys" by blast
    show ?thesis
    proof (rule ex1I)
      from simple_path_rev [OF ys] show "simple_path ?T a v (rev ys)" .
    next
      fix xs assume "simple_path ?T a v xs"
      from uniq [OF simple_path_rev [OF this]] have "rev xs = ys" .
      then show "xs = rev ys" by auto
    qed
  qed
  have inner: "\<exists>!xs. simple_path ?T a b xs" if a: "a \<in> S" and b: "b \<in> S" for a b
  proof -
    from a b v have av: "a \<noteq> v" and bv: "b \<noteq> v" by auto
    from tree a b obtain ys where ys: "simple_path S a b ys"
      and uniq: "\<And>zs. simple_path S a b zs \<Longrightarrow> zs = ys"
      unfolding is_tree_def by blast
    show ?thesis
    proof (rule ex1I)
      show "simple_path ?T a b ys" using ys by (rule simple_path_mono) auto
    next
      fix xs assume p: "simple_path ?T a b xs"
      from leaf_not_inside [OF leaf v p av bv] have "v \<notin> set xs" .
      with p have "simple_path S a b xs" by (rule simple_path_restrict)
      then show "xs = ys" by (rule uniq)
    qed
  qed
  have loop: "\<exists>!xs. simple_path ?T v v xs"
  proof (rule ex1I)
    show "simple_path ?T v v [v]" by (rule simple_path_single) simp
  next
    fix xs assume "simple_path ?T v v xs"
    then show "xs = [v]" by (rule simple_path_loop)
  qed
  show ?thesis
    unfolding is_tree_def
  proof (intro ballI)
    fix a b assume "a \<in> ?T" "b \<in> ?T"
    then consider "a = v" "b = v" | "a = v" "b \<in> S" | "a \<in> S" "b = v" | "a \<in> S" "b \<in> S"
      by blast
    then show "\<exists>!xs. simple_path ?T a b xs"
    proof cases
      case 1 with loop show ?thesis by simp
    next
      case 2 with from_v show ?thesis by simp
    next
      case 3 with to_v show ?thesis by simp
    next
      case 4 with inner show ?thesis by simp
    qed
  qed
qed

lemma tree_single: "is_tree {c}"
  unfolding is_tree_def
proof (intro ballI)
  fix a b assume "a \<in> {c}" "b \<in> {c}"
  then have ab: "a = c" "b = c" by simp_all
  show "\<exists>!xs. simple_path {c} a b xs"
    unfolding ab
  proof (rule ex1I)
    show "simple_path {c} c c [c]" by (rule simple_path_single) simp
  next
    fix xs assume "simple_path {c} c c xs"
    then show "xs = [c]" by (rule simple_path_loop)
  qed
qed

section \<open>How the open cells grow\<close>

text \<open>
  Start is \<open>(0, 0, 0)\<close>, so the loop visits cells whose three coordinates are even, and
  opens, besides them, the cell halfway between two visited cells. An open cell with
  three even coordinates is visited; any other open cell is the wall between two visited
  cells. A newly opened wall touches one open cell only, the top of the stack, and the
  newly visited cell touches only that wall: the open cells grow as a tree grows, leaf
  by leaf.
\<close>

fun all_even :: "coord \<Rightarrow> bool" where
  "all_even (z, y, x) = (even z \<and> even y \<and> even x)"

definition tree_inv :: "carve_state \<Rightarrow> bool" where
  "tree_inv s \<longleftrightarrow>
     set (stack s) \<subseteq> visited_cells s \<and>
     visited_cells s \<subseteq> open_cells (c_self s) \<and>
     (\<forall>c \<in> visited_cells s. all_even c) \<and>
     (\<forall>c \<in> open_cells (c_self s). all_even c \<longrightarrow> c \<in> visited_cells s) \<and>
     (\<forall>c \<in> open_cells (c_self s). \<not> all_even c \<longrightarrow>
        (\<exists>a \<in> visited_cells s. \<exists>d \<in> set directions. c = shift a d \<and> shift2 a d \<in> visited_cells s)) \<and>
     is_tree (open_cells (c_self s))"

lemma wall_odd: "all_even a \<Longrightarrow> d \<in> set directions \<Longrightarrow> \<not> all_even (shift a d)"
  by (cases a) (auto simp: directions_def shift_def)

lemma lattice_even: "all_even a \<Longrightarrow> d \<in> set directions \<Longrightarrow> all_even (shift2 a d)"
  by (cases a) (auto simp: directions_def shift2_def)

lemma shift_shift: "shift (shift a d) d = shift2 a d"
  by (simp add: shift_def shift2_def)

lemma adjacent_wall:
  assumes "d \<in> set directions"
  shows "adjacent a (shift a d)" and "adjacent (shift a d) (shift2 a d)"
proof -
  from assms show "adjacent a (shift a d)" by (auto simp: adjacent_shift)
  from assms have "adjacent (shift a d) (shift (shift a d) d)" by (auto simp: adjacent_shift)
  then show "adjacent (shift a d) (shift2 a d)" by (simp only: shift_shift)
qed

lemma directions_cases:
  assumes "d \<in> set directions"
  obtains "d = (0, -1, 0)" | "d = (0, 1, 0)" | "d = (0, 0, -1)" | "d = (0, 0, 1)"
    | "d = (-1, 0, 0)" | "d = (1, 0, 0)"
  using assms unfolding directions_def by auto

lemma wall_ends:
  assumes "all_even a" "all_even a'" "d \<in> set directions" "d' \<in> set directions"
    and eq: "shift a d = shift a' d'"
  shows "(a' = a \<and> shift2 a' d' = shift2 a d) \<or> (a' = shift2 a d \<and> shift2 a' d' = a)"
proof -
  obtain z y x where a: "a = (z, y, x)" by (cases a) auto
  obtain z' y' x' where a': "a' = (z', y', x')" by (cases a') auto
  from assms(1,2) a a' have e: "even z" "even y" "even x" "even z'" "even y'" "even x'"
    by simp_all
  note f = e eq [unfolded a a'] a a'
  from assms(3) show ?thesis
  proof (cases rule: directions_cases)
    case 1
    from assms(4) show ?thesis
      by (cases rule: directions_cases)
         (use 1 f in \<open>(simp add: shift_def shift2_def; presburger)+\<close>)
  next
    case 2
    from assms(4) show ?thesis
      by (cases rule: directions_cases)
         (use 2 f in \<open>(simp add: shift_def shift2_def; presburger)+\<close>)
  next
    case 3
    from assms(4) show ?thesis
      by (cases rule: directions_cases)
         (use 3 f in \<open>(simp add: shift_def shift2_def; presburger)+\<close>)
  next
    case 4
    from assms(4) show ?thesis
      by (cases rule: directions_cases)
         (use 4 f in \<open>(simp add: shift_def shift2_def; presburger)+\<close>)
  next
    case 5
    from assms(4) show ?thesis
      by (cases rule: directions_cases)
         (use 5 f in \<open>(simp add: shift_def shift2_def; presburger)+\<close>)
  next
    case 6
    from assms(4) show ?thesis
      by (cases rule: directions_cases)
         (use 6 f in \<open>(simp add: shift_def shift2_def; presburger)+\<close>)
  qed
qed

fun odd_count :: "coord \<Rightarrow> nat" where
  "odd_count (z, y, x) = (if odd z then 1 else 0) + (if odd y then 1 else 0) + (if odd x then 1 else 0)"

lemma all_even_count: "all_even c \<longleftrightarrow> odd_count c = 0"
  by (cases c) simp

lemma wall_count: "all_even a \<Longrightarrow> d \<in> set directions \<Longrightarrow> odd_count (shift a d) = 1"
  by (cases a) (auto simp: directions_def shift_def)

lemma wall_neighbour_count:
  assumes "all_even a" "d \<in> set directions" "e \<in> set directions"
  shows "shift (shift a d) e = a \<or> shift (shift a d) e = shift2 a d \<or>
         odd_count (shift (shift a d) e) = 2"
proof -
  obtain z y x where a: "a = (z, y, x)" by (cases a) auto
  from assms(1) a have ev: "even z" "even y" "even x" by simp_all
  from assms(2) show ?thesis
  proof (cases rule: directions_cases)
    case 1
    from assms(3) show ?thesis
      by (cases rule: directions_cases) (use 1 ev a in \<open>simp_all add: shift_def shift2_def\<close>)
  next
    case 2
    from assms(3) show ?thesis
      by (cases rule: directions_cases) (use 2 ev a in \<open>simp_all add: shift_def shift2_def\<close>)
  next
    case 3
    from assms(3) show ?thesis
      by (cases rule: directions_cases) (use 3 ev a in \<open>simp_all add: shift_def shift2_def\<close>)
  next
    case 4
    from assms(3) show ?thesis
      by (cases rule: directions_cases) (use 4 ev a in \<open>simp_all add: shift_def shift2_def\<close>)
  next
    case 5
    from assms(3) show ?thesis
      by (cases rule: directions_cases) (use 5 ev a in \<open>simp_all add: shift_def shift2_def\<close>)
  next
    case 6
    from assms(3) show ?thesis
      by (cases rule: directions_cases) (use 6 ev a in \<open>simp_all add: shift_def shift2_def\<close>)
  qed
qed

lemma open_cells_grid_set:
  assumes "grid_set m c 0 = Inr m'"
  shows "open_cells m' = insert c (open_cells m)"
proof -
  from assms have ib: "in_bounds m c" and m': "m' = m\<lparr>grid := (grid m)(c := 0)\<rparr>"
    by (auto simp: grid_set_def split: if_splits)
  have "in_bounds m' x = in_bounds m x" for x using m' by (cases x) simp
  with ib m' show ?thesis by (auto simp: open_cells_def is_open_def)
qed

text \<open>A wall between a visited cell (the top of the stack) and an unvisited lattice cell is a new leaf.\<close>

lemma wall_is_leaf:
  assumes inv: "tree_inv s" and t: "t \<in> visited_cells s" and d: "d \<in> set directions"
    and nv: "shift2 t d \<notin> visited_cells s"
  shows "shift t d \<notin> open_cells (c_self s)"
    and "\<forall>x \<in> open_cells (c_self s). adjacent (shift t d) x \<longrightarrow> x = t"
proof -
  let ?O = "open_cells (c_self s)" and ?V = "visited_cells s"
  from inv have ev: "\<And>c. c \<in> ?V \<Longrightarrow> all_even c"
    and lat: "\<And>c. c \<in> ?O \<Longrightarrow> all_even c \<Longrightarrow> c \<in> ?V"
    and wall: "\<And>c. c \<in> ?O \<Longrightarrow> \<not> all_even c \<Longrightarrow>
        \<exists>a \<in> ?V. \<exists>d \<in> set directions. c = shift a d \<and> shift2 a d \<in> ?V"
    unfolding tree_inv_def by blast+
  note et = ev [OF t]
  show "shift t d \<notin> ?O"
  proof
    assume "shift t d \<in> ?O"
    from wall [OF this wall_odd [OF et d]] obtain a' d' where
      a': "a' \<in> ?V" "d' \<in> set directions" "shift t d = shift a' d'" "shift2 a' d' \<in> ?V"
      by blast
    from wall_ends [OF et ev [OF a'(1)] d a'(2) a'(3)] a'(1,4) nv show False by auto
  qed
  show "\<forall>x \<in> ?O. adjacent (shift t d) x \<longrightarrow> x = t"
  proof (intro ballI impI)
    fix x assume x: "x \<in> ?O" and adj: "adjacent (shift t d) x"
    from adj obtain e where e: "e \<in> set directions" "x = shift (shift t d) e"
      by (auto simp: adjacent_shift)
    from wall_neighbour_count [OF et d e(1)] e(2)
    consider "x = t" | "x = shift2 t d" | "odd_count x = 2" by auto
    then show "x = t"
    proof cases
      case 1
      then show ?thesis .
    next
      case 2
      with lat [OF x] lattice_even [OF et d] nv show ?thesis by simp
    next
      case 3
      then have "\<not> all_even x" by (simp add: all_even_count)
      from wall [OF x this] obtain a' d' where
        "a' \<in> ?V" "d' \<in> set directions" "x = shift a' d'" by blast
      with wall_count [OF ev [OF this(1)] this(2)] 3 show ?thesis by simp
    qed
  qed
qed

text \<open>Once the wall is open, the lattice cell behind it is a new leaf on the wall.\<close>

lemma lattice_cell_is_leaf:
  assumes inv: "tree_inv s" and t: "t \<in> visited_cells s" and d: "d \<in> set directions"
    and nv: "shift2 t d \<notin> visited_cells s"
  shows "shift2 t d \<notin> insert (shift t d) (open_cells (c_self s))"
    and "\<forall>x \<in> insert (shift t d) (open_cells (c_self s)).
           adjacent (shift2 t d) x \<longrightarrow> x = shift t d"
proof -
  let ?O = "open_cells (c_self s)" and ?V = "visited_cells s"
  let ?n = "shift2 t d"
  from inv have ev: "\<And>c. c \<in> ?V \<Longrightarrow> all_even c"
    and lat: "\<And>c. c \<in> ?O \<Longrightarrow> all_even c \<Longrightarrow> c \<in> ?V"
    and wall: "\<And>c. c \<in> ?O \<Longrightarrow> \<not> all_even c \<Longrightarrow>
        \<exists>a \<in> ?V. \<exists>d \<in> set directions. c = shift a d \<and> shift2 a d \<in> ?V"
    unfolding tree_inv_def by blast+
  note et = ev [OF t]
  note en = lattice_even [OF et d]
  from wall_odd [OF et d] en have "?n \<noteq> shift t d" by auto
  moreover from lat [of ?n] en nv have "?n \<notin> ?O" by blast
  ultimately show "?n \<notin> insert (shift t d) ?O" by simp
  show "\<forall>x \<in> insert (shift t d) ?O. adjacent ?n x \<longrightarrow> x = shift t d"
  proof (intro ballI impI)
    fix x assume x: "x \<in> insert (shift t d) ?O" and adj: "adjacent ?n x"
    show "x = shift t d"
    proof (rule ccontr)
      assume "x \<noteq> shift t d"
      with x have xo: "x \<in> ?O" by simp
      from adj obtain e where e: "e \<in> set directions" "x = shift ?n e"
        by (auto simp: adjacent_shift)
      from wall_odd [OF en e(1)] e(2) have "\<not> all_even x" by simp
      from wall [OF xo this] obtain a' d' where
        a': "a' \<in> ?V" "d' \<in> set directions" "x = shift a' d'" "shift2 a' d' \<in> ?V"
        by blast
      from a'(3) e(2) have "shift ?n e = shift a' d'" by simp
      from wall_ends [OF en ev [OF a'(1)] e(1) a'(2) this] a'(1,4) nv show False by auto
    qed
  qed
qed

lemma carve_step_tree:
  assumes inv: "tree_inv s" and st: "carve_step s = Inr s'"
  shows "tree_inv s'"
  using carve_step_cases [OF st]
proof
  assume "s' = s\<lparr>stack := butlast (stack s)\<rparr> \<and> stack s \<noteq> [] \<and>
            neighbors_of (c_self s) (visited_cells s) (last (stack s)) = []"
  then have s': "s' = s\<lparr>stack := butlast (stack s)\<rparr>" by blast
  from inv have "set (butlast (stack s)) \<subseteq> visited_cells s"
    unfolding tree_inv_def by (auto dest: in_set_butlastD)
  with inv s' show ?thesis by (simp add: tree_inv_def)
next
  assume "\<exists>z y x nz ny nx dz dy dx m1 m2.
            stack s \<noteq> [] \<and> last (stack s) = (z, y, x) \<and>
            (nz, ny, nx, dz, dy, dx) \<in> set (neighbors_of (c_self s) (visited_cells s) (z, y, x)) \<and>
            grid_set (c_self s) (z + dz, y + dy, x + dx) 0 = Inr m1 \<and>
            grid_set m1 (nz, ny, nx) 0 = Inr m2 \<and>
            s' = s\<lparr>c_self := m2, visited_cells := insert (nz, ny, nx) (visited_cells s),
                   stack := stack s @ [(nz, ny, nx)], c_rng := rng_tail (c_rng s)\<rparr>"
  then obtain z y x nz ny nx dz dy dx m1 m2 where
    ne: "stack s \<noteq> []" and top: "last (stack s) = (z, y, x)"
    and mem: "(nz, ny, nx, dz, dy, dx) \<in> set (neighbors_of (c_self s) (visited_cells s) (z, y, x))"
    and g1: "grid_set (c_self s) (z + dz, y + dy, x + dx) 0 = Inr m1"
    and g2: "grid_set m1 (nz, ny, nx) 0 = Inr m2"
    and s': "s' = s\<lparr>c_self := m2, visited_cells := insert (nz, ny, nx) (visited_cells s),
                   stack := stack s @ [(nz, ny, nx)], c_rng := rng_tail (c_rng s)\<rparr>"
    by blast
  let ?O = "open_cells (c_self s)" and ?V = "visited_cells s"
  let ?t = "(z, y, x)" and ?d = "(dz, dy, dx)"
  let ?w = "shift ?t ?d" and ?n = "shift2 ?t ?d"
  from neighbors_of_mem [OF mem]
  have d: "?d \<in> set directions"
    and neq: "nz = z + dz * 2" "ny = y + dy * 2" "nx = x + dx * 2"
    and nv0: "(nz, ny, nx) \<notin> ?V"
    by blast+
  from neq have n: "(nz, ny, nx) = ?n" by (simp add: shift2_def)
  have w: "(z + dz, y + dy, x + dx) = ?w" by (simp add: shift_def)
  from nv0 n have nv: "?n \<notin> ?V" by simp
  from inv have stk: "set (stack s) \<subseteq> ?V" and vo: "?V \<subseteq> ?O"
    and ev: "\<And>c. c \<in> ?V \<Longrightarrow> all_even c"
    and lat: "\<And>c. c \<in> ?O \<Longrightarrow> all_even c \<Longrightarrow> c \<in> ?V"
    and wall: "\<And>c. c \<in> ?O \<Longrightarrow> \<not> all_even c \<Longrightarrow>
        \<exists>a \<in> ?V. \<exists>d \<in> set directions. c = shift a d \<and> shift2 a d \<in> ?V"
    and tree: "is_tree ?O"
    unfolding tree_inv_def by blast+
  from ne top stk have t: "?t \<in> ?V" using last_in_set [OF ne] by auto
  with vo have tO: "?t \<in> ?O" by blast
  note et = ev [OF t]
  note en = lattice_even [OF et d]
  note wo = wall_odd [OF et d]
  from adjacent_wall [OF d, of ?t] have adj1: "adjacent ?w ?t" and adj2: "adjacent ?n ?w"
    by (simp_all only: adjacent_sym [of ?w ?t] adjacent_sym [of ?n ?w])
  from open_cells_grid_set [OF g1] w have O1: "open_cells m1 = insert ?w ?O" by simp
  from open_cells_grid_set [OF g2] n O1 have O2: "open_cells m2 = insert ?n (insert ?w ?O)"
    by simp
  from tree wall_is_leaf(1) [OF inv t d nv] tO adj1 wall_is_leaf(2) [OF inv t d nv]
  have tree1: "is_tree (insert ?w ?O)" by (rule tree_add_leaf)
  have "?w \<in> insert ?w ?O" by simp
  with tree1 lattice_cell_is_leaf(1) [OF inv t d nv]
  have tree2: "is_tree (insert ?n (insert ?w ?O))"
    using adj2 lattice_cell_is_leaf(2) [OF inv t d nv] by (rule tree_add_leaf)
  let ?V' = "insert ?n ?V" and ?O' = "insert ?n (insert ?w ?O)"
  have 1: "set (stack s @ [?n]) \<subseteq> ?V'" using stk by auto
  have 2: "?V' \<subseteq> ?O'" using vo by auto
  have 3: "\<forall>c \<in> ?V'. all_even c" using ev en by auto
  have 4: "\<forall>c \<in> ?O'. all_even c \<longrightarrow> c \<in> ?V'" using lat wo by auto
  have 5: "\<forall>c \<in> ?O'. \<not> all_even c \<longrightarrow>
        (\<exists>a \<in> ?V'. \<exists>d \<in> set directions. c = shift a d \<and> shift2 a d \<in> ?V')"
  proof (intro ballI impI)
    fix c assume c: "c \<in> ?O'" and odd: "\<not> all_even c"
    from c odd en consider "c = ?w" | "c \<in> ?O" by auto
    then show "\<exists>a \<in> ?V'. \<exists>d \<in> set directions. c = shift a d \<and> shift2 a d \<in> ?V'"
    proof cases
      case 1
      with t d show ?thesis by blast
    next
      case 2
      from wall [OF 2 odd] show ?thesis by blast
    qed
  qed
  from s' n O2 have "stack s' = stack s @ [?n]" "visited_cells s' = ?V'"
    "open_cells (c_self s') = ?O'" by simp_all
  with 1 2 3 4 5 tree2 show ?thesis unfolding tree_inv_def by (simp only:)
qed

lemma carve_tree: "tree_inv s \<Longrightarrow> carve s = Inr s' \<Longrightarrow> tree_inv s'"
proof (induction s rule: carve.induct)
  case (1 s)
  show ?case
  proof (cases "stack s = []")
    case True
    with "1.prems" show ?thesis by (simp add: carve.simps [of s])
  next
    case False
    with "1.prems"(2) obtain s1 where s1: "carve_step s = Inr s1" and rest: "carve s1 = Inr s'"
      by (auto simp: carve.simps [of s] split: sum.splits)
    from carve_step_tree [OF "1.prems"(1) s1] have "tree_inv s1" .
    from "1.IH" [OF False s1 this rest] show ?thesis .
  qed
qed

lemma carve_init_tree:
  assumes g: "GridField m" and blocked: "open_cells m = {}" and i: "carve_init m r = Inr s0"
  shows "tree_inv s0"
proof -
  from i obtain m0 where m0: "grid_set m (start m) 0 = Inr m0"
    and s0: "s0 = \<lparr>c_self = m0, stack = [start m], visited_cells = {start m}, c_rng = r\<rparr>"
    by (auto simp: carve_init_def split: sum.splits)
  from open_cells_grid_set [OF m0] blocked have O: "open_cells m0 = {start m}" by simp
  from g have "all_even (start m)" by (simp add: GridField_def)
  with O s0 tree_single [of "start m"] show ?thesis by (simp add: tree_inv_def)
qed

section \<open>The carved cells form a tree\<close>

text \<open>
  Claim C7, amended. For every field with positive dimensions whose cells are all
  blocked when \<open>generate_maze\<close> is called, as the constructor leaves them, and every
  sequence of random choices: when the carving loop has ended, before start and end are
  forced open and before the random openings, the open cells form a tree under
  adjacency: any two of them are joined by exactly one simple path of open cells.
\<close>

theorem carve_phase_tree:
  assumes "GridField m" and "open_cells m = {}"
  shows "\<exists>s. carve_phase m r = Inr s \<and> is_tree (open_cells (c_self s))"
proof -
  from carve_phase_returns [OF assms(1), of r] obtain s where s: "carve_phase m r = Inr s"
    by blast
  then obtain s0 where i: "carve_init m r = Inr s0" and c: "carve s0 = Inr s"
    by (auto simp: carve_phase_def split: sum.splits)
  from carve_tree [OF carve_init_tree [OF assms i] c] have "is_tree (open_cells (c_self s))"
    by (simp add: tree_inv_def)
  with s show ?thesis by blast
qed

lemma carve_phase_fresh_corridor:
  "carve_phase fresh_corridor (\<lambda>_. 0) =
     Inr \<lparr>c_self = fresh_corridor\<lparr>grid := (\<lambda>_. 1)((0, 0, 0) := 0, (0, 0, 1) := 0, (0, 0, 2) := 0)\<rparr>,
          stack = [], visited_cells = {(0, 0, 0), (0, 0, 2)}, c_rng = \<lambda>_. 0\<rparr>"
  by (simp add: generate_eval fresh_corridor_def insert_commute)

theorem carve_phase_tree_witness:
  "GridField fresh_corridor \<and> open_cells fresh_corridor = {} \<and>
   (\<exists>s. carve_phase fresh_corridor (\<lambda>_. 0) = Inr s \<and>
      open_cells (c_self s) = {(0, 0, 0), (0, 0, 1), (0, 0, 2)} \<and>
      is_tree {(0, 0, 0), (0, 0, 1), (0, 0, 2)})"
proof -
  have g: "GridField fresh_corridor" by (rule GridField_fresh_corridor)
  have b: "open_cells fresh_corridor = {}"
    by (simp add: open_cells_def is_open_def fresh_corridor_def)
  have o: "open_cells (fresh_corridor\<lparr>grid := (\<lambda>_. 1)((0, 0, 0) := 0, (0, 0, 1) := 0, (0, 0, 2) := 0)\<rparr>)
      = {(0, 0, 0), (0, 0, 1), (0, 0, 2)}"
    by (auto simp: open_cells_def is_open_def fresh_corridor_def)
  from carve_phase_tree [OF g b, of "\<lambda>_. 0"] carve_phase_fresh_corridor o
  have "is_tree {(0, 0, 0), (0, 0, 1), (0, 0, 2)}" by auto
  with g b carve_phase_fresh_corridor o show ?thesis by auto
qed

text \<open>A field of two by two cells whose end cell is open before the call.\<close>

definition pre_opened :: Maze3D where
  "pre_opened = \<lparr>width = 2, height = 2, depth = 1, grid = (\<lambda>_. 1)((0, 1, 1) := 0),
     start = (0, 0, 0), end_cell = (0, 1, 1)\<rparr>"

lemma GridField_pre_opened: "GridField pre_opened"
  by (simp add: GridField_def pre_opened_def)

lemma carve_phase_pre_opened:
  "carve_phase pre_opened r =
     Inr \<lparr>c_self = pre_opened\<lparr>grid := (\<lambda>_. 1)((0, 1, 1) := 0, (0, 0, 0) := 0)\<rparr>,
          stack = [], visited_cells = {(0, 0, 0)}, c_rng = r\<rparr>"
  by (simp add: generate_eval pre_opened_def)

lemma open_cells_pre_opened:
  "open_cells (pre_opened\<lparr>grid := (\<lambda>_. 1)((0, 1, 1) := 0, (0, 0, 0) := 0)\<rparr>)
     = {(0, 0, 0), (0, 1, 1)}"
  by (auto simp: open_cells_def is_open_def pre_opened_def)

lemma two_corners_no_tree: "\<not> is_tree {(0, 0, 0), (0, 1, 1)}"
proof
  assume "is_tree {(0, 0, 0), (0, 1, 1)}"
  then obtain xs where p: "simple_path {(0, 0, 0), (0, 1, 1)} (0, 0, 0) (0, 1, 1) xs"
    unfolding is_tree_def by blast
  then obtain ys where xs: "xs = (0, 0, 0) # ys" by (cases xs) (auto simp: simple_path_def)
  show False
  proof (cases ys)
    case Nil
    with p xs show False by (simp add: simple_path_def)
  next
    case (Cons c zs)
    with p xs have "c \<in> {(0, 0, 0), (0, 1, 1)}" and "adjacent (0, 0, 0) c"
      by (simp_all add: simple_path_def)
    then show False by auto
  qed
qed

text \<open>
  Claim C7 as stated, for every field with positive dimensions, fails on a field of two
  by two cells whose end cell is open before the call: the loop only opens start, and
  the two open cells, start and end, are not adjacent, so no path of open cells joins
  them. The loop never reads the grid; it is a tree that it builds, on a blocked field.
\<close>

theorem carve_phase_not_tree:
  "GridField pre_opened \<and>
   carve_phase pre_opened (\<lambda>_. 0) =
     Inr \<lparr>c_self = pre_opened\<lparr>grid := (\<lambda>_. 1)((0, 1, 1) := 0, (0, 0, 0) := 0)\<rparr>,
          stack = [], visited_cells = {(0, 0, 0)}, c_rng = \<lambda>_. 0\<rparr> \<and>
   open_cells (pre_opened\<lparr>grid := (\<lambda>_. 1)((0, 1, 1) := 0, (0, 0, 0) := 0)\<rparr>)
     = {(0, 0, 0), (0, 1, 1)} \<and>
   \<not> is_tree (open_cells (pre_opened\<lparr>grid := (\<lambda>_. 1)((0, 1, 1) := 0, (0, 0, 0) := 0)\<rparr>))"
  using GridField_pre_opened carve_phase_pre_opened [of "\<lambda>_. 0"] open_cells_pre_opened
    two_corners_no_tree
  by (simp only: not_False_eq_True simp_thms)

end
